theory Spec2Isabelle
  imports Main "HOL-Library.Word" "HOL-Library.Multiset"
begin

unbundle bit_operations_syntax

section \<open>Bytes, errors and the random-access byte source\<close>

type_synonym byte = "8 word"
type_synonym u32 = "32 word"

text \<open>
  The error values the package produces or passes on: \<open>io.EOF\<close>, \<open>io.ErrUnexpectedEOF\<close>,
  \<open>io.ErrClosedPipe\<close>, the builder's format error, and any other error of the
  underlying reader or writer (numbered).
\<close>

datatype error = EOF | ErrUnexpectedEOF | ErrClosedPipe | BadFormatError | OtherError nat

text \<open>
  \<open>io.ReaderAt\<close>: \<open>ReadAt(p, off)\<close> with \<open>len(p) = n\<close> is \<open>r n off\<close>; the result is the
  bytes copied into \<open>p\<close> (their number is Go's \<open>n\<close>) and the error (\<open>None\<close> for \<open>nil\<close>).
  The interface asks for a non-nil error whenever fewer than \<open>len(p)\<close> bytes are returned,
  and allows either \<open>nil\<close> or \<open>io.EOF\<close> when the read ends exactly at the end of the input.
\<close>

type_synonym ReaderAt = "nat \<Rightarrow> nat \<Rightarrow> byte list \<times> error option"

definition reader_ok :: "ReaderAt \<Rightarrow> bool" where
  "reader_ok rd \<longleftrightarrow>
     (\<forall>n off. length (fst (rd n off)) \<le> n \<and> (length (fst (rd n off)) < n \<longrightarrow> snd (rd n off) \<noteq> None))"

text \<open>
  An in-memory byte source, as the tests use it (\<open>bytes.NewReader(b)\<close>). With
  \<open>eager = False\<close> it is \<open>bytes.Reader.ReadAt\<close>: \<open>io.EOF\<close> only when fewer bytes than asked
  are left. With \<open>eager = True\<close> it also reports \<open>io.EOF\<close> together with a full read that
  stops exactly at the end of the data, which \<open>io.ReaderAt\<close> permits.
\<close>

definition bytesReader :: "bool \<Rightarrow> byte list \<Rightarrow> ReaderAt" where
  "bytesReader eager s n off =
     (if length s \<le> off then ([], Some EOF)
      else let d = take n (drop off s)
           in (d, if length d < n \<or> (eager \<and> off + n = length s) then Some EOF else None))"

section \<open>Fixed-size fields\<close>

text \<open>\<open>binary.LittleEndian.Uint32\<close> on a slice of at least four bytes.\<close>

fun Uint32 :: "byte list \<Rightarrow> u32" where
  "Uint32 (b0 # b1 # b2 # b3 # _) =
     ucast b0 OR push_bit 8 (ucast b1) OR push_bit 16 (ucast b2) OR push_bit 24 (ucast b3)"
| "Uint32 _ = 0"

text \<open>
  \<open>readNums\<close> of cdb.go. The scratch buffer \<open>buf[:8]\<close> is overwritten by the read before it
  is decoded, so the model decodes the bytes the read returned.
\<close>

definition readNums :: "ReaderAt \<Rightarrow> u32 \<Rightarrow> error + (u32 \<times> u32)" where
  "readNums rd pos =
     (let (d, err) = rd 8 (unat pos);
          err = (if err = Some EOF \<and> length d = 8 then None else err);
          err = (if err = Some EOF then Some ErrUnexpectedEOF else err)
      in case err of
           Some e \<Rightarrow> Inl e
         | None \<Rightarrow> Inr (Uint32 (take 4 d), Uint32 (take 4 (drop 4 d))))"

section \<open>Hash function\<close>

text \<open>
  Modelled from the spec: \<open>checksum\<close>, the hash of a key, is called by \<open>Iterate\<close> but its
  file is not among the sources. Section 4.1: the accumulator starts at 5381 and, for each
  byte \<open>c\<close> of the key in order, becomes \<open>((accumulator << 5) + accumulator) XOR c\<close>,
  truncated to 32 bits.
\<close>

definition checksum :: "byte list \<Rightarrow> u32" where
  "checksum k = fold (\<lambda>c acc. (push_bit 5 acc + acc) XOR ucast c) k 5381"

section \<open>Lookup engine\<close>

text \<open>
  \<open>CdbIterator\<close> of cdb.go. \<open>db\<close> is the byte source of the \<open>Cdb\<close> the iterator points to;
  the 64-byte scratch buffer is not state: every use overwrites it first.
\<close>

record CdbIterator =
  db :: ReaderAt
  initErr :: "error option"
  key :: "byte list"
  loop :: u32
  khash :: u32
  kpos :: u32
  hpos :: u32
  hslots :: u32
  dpos :: u32
  dlen :: u32

definition Iterate :: "ReaderAt \<Rightarrow> byte list \<Rightarrow> CdbIterator" where
  "Iterate c k =
     (let iter = \<lparr>db = c, initErr = None, key = k, loop = 0, khash = checksum k,
                  kpos = 0, hpos = 0, hslots = 0, dpos = 0, dlen = 0\<rparr>
      in case readNums (db iter) (khash iter mod 256 * 8) of
           Inl err \<Rightarrow> iter\<lparr>initErr := Some err\<rparr>
         | Inr (hp, hs) \<Rightarrow>
             let iter = iter\<lparr>hpos := hp, hslots := hs\<rparr>
             in if hslots iter = 0 then iter\<lparr>initErr := Some EOF\<rparr>
                else let hashslot = khash iter div 256 mod hslots iter
                     in iter\<lparr>kpos := hpos iter + hashslot * 8\<rparr>)"

text \<open>
  \<open>match\<close>: the stored key is compared in chunks of at most 64 bytes (the length of the
  scratch buffer; it is only ever shortened for the last chunk). \<open>n\<close> is the number of
  key bytes already compared.
\<close>

function match_from :: "ReaderAt \<Rightarrow> byte list \<Rightarrow> nat \<Rightarrow> u32 \<Rightarrow> error + bool" where
  "match_from rd k n pos =
     (if n < length k then
        let nleft = length k - n;
            blen = (if 64 > nleft then nleft else 64)
        in case rd blen (unat pos) of
             (d, Some err) \<Rightarrow> Inl err
           | (d, None) \<Rightarrow>
               if d \<noteq> take blen (drop n k) then Inr False
               else match_from rd k (n + blen) (pos + of_nat blen)
      else Inr True)"
  by pat_completeness auto
termination
  by (relation "measure (\<lambda>(rd, k, n, pos). length k - n)") (auto split: if_splits)

declare match_from.simps [simp del]

definition match :: "ReaderAt \<Rightarrow> byte list \<Rightarrow> u32 \<Rightarrow> error + bool" where
  "match rd k pos = match_from rd k 0 pos"

text \<open>
  The middle of the loop of \<open>next\<close>: move the iterator to the next position, and wrap
  around to the start of the hash table when \<open>kpos\<close> reaches its end.
\<close>

definition advance :: "CdbIterator \<Rightarrow> CdbIterator" where
  "advance iter =
     (let iter = iter\<lparr>loop := loop iter + 1\<rparr>;
          iter = iter\<lparr>kpos := kpos iter + 8\<rparr>
      in if kpos iter = hpos iter + hslots iter * 8 then iter\<lparr>kpos := hpos iter\<rparr> else iter)"

text \<open>
  One pass of the \<open>for\<close> loop of \<open>next\<close>: it either returns (an error, \<open>io.EOF\<close>, or
  \<open>nil\<close> with \<open>dpos\<close> and \<open>dlen\<close> set) or reaches a \<open>continue\<close>.
\<close>

datatype outcome = Return "error option" | Continue

definition next_pass :: "CdbIterator \<Rightarrow> outcome \<times> CdbIterator" where
  "next_pass iter =
     (if hslots iter \<le> loop iter then (Return (Some EOF), iter)
      else case readNums (db iter) (kpos iter) of
        Inl err \<Rightarrow> (Return (Some err), iter)
      | Inr (kh, recPos) \<Rightarrow>
          if recPos = 0 then (Return (Some EOF), iter)
          else
            let iter = advance iter
            in if kh \<noteq> khash iter then (Continue, iter)
               else case readNums (db iter) recPos of
                 Inl err \<Rightarrow> (Return (Some err), iter)
               | Inr (keyLen, dataLen) \<Rightarrow>
                   if keyLen \<noteq> of_nat (length (key iter)) then (Continue, iter)
                   else case match (db iter) (key iter) (recPos + 8) of
                     Inl err \<Rightarrow> (Return (Some err), iter)
                   | Inr isMatch \<Rightarrow>
                       if \<not> isMatch then (Continue, iter)
                       else (Return None, iter\<lparr>dpos := recPos + 8 + keyLen, dlen := dataLen\<rparr>))"

lemma advance_fields [simp]:
  "loop (advance iter) = loop iter + 1"
  "hslots (advance iter) = hslots iter"
  "hpos (advance iter) = hpos iter"
  "db (advance iter) = db iter"
  "key (advance iter) = key iter"
  "khash (advance iter) = khash iter"
  "initErr (advance iter) = initErr iter"
  "kpos (advance iter) =
     (if kpos iter + 8 = hpos iter + hslots iter * 8 then hpos iter else kpos iter + 8)"
  by (simp_all add: advance_def Let_def)

lemma next_pass_Continue:
  assumes "next_pass iter = (Continue, iter')"
  shows "loop iter < hslots iter" and "loop iter' = loop iter + 1"
    and "hslots iter' = hslots iter" and "hpos iter' = hpos iter"
    and "db iter' = db iter" and "key iter' = key iter" and "khash iter' = khash iter"
    and "kpos iter' = (if kpos iter + 8 = hpos iter + hslots iter * 8 then hpos iter else kpos iter + 8)"
  using assms
  by (auto simp add: next_pass_def Let_def split: if_splits sum.splits prod.splits)

lemma unat_succ_less:
  fixes x y :: u32
  assumes "x < y"
  shows "unat (x + 1) = Suc (unat x)"
proof -
  have "unat x < unat y" using assms by (simp add: word_less_nat_alt)
  moreover have "unat y < 2 ^ 32" using unsigned_less [of y] by simp
  ultimately have "unat x + 1 < 2 ^ 32" by linarith
  then show ?thesis by (simp add: unat_word_ariths)
qed

lemma next_pass_measure:
  assumes "next_pass iter = (Continue, iter')"
  shows "unat (hslots iter') - unat (loop iter') < unat (hslots iter) - unat (loop iter)"
proof -
  have lt: "loop iter < hslots iter" using next_pass_Continue(1) [OF assms] .
  then have "unat (loop iter) < unat (hslots iter)" by (simp add: word_less_nat_alt)
  moreover have "unat (loop iter') = Suc (unat (loop iter))"
    using next_pass_Continue(2) [OF assms] unat_succ_less [OF lt] by simp
  ultimately show ?thesis using next_pass_Continue(3) [OF assms] by simp
qed

function next_loop :: "CdbIterator \<Rightarrow> error option \<times> CdbIterator" where
  "next_loop iter =
     (case next_pass iter of
        (Return err, iter') \<Rightarrow> (err, iter')
      | (Continue, iter') \<Rightarrow> next_loop iter')"
  by pat_completeness auto
termination
  by (relation "measure (\<lambda>iter. unat (hslots iter) - unat (loop iter))")
     (auto simp add: next_pass_measure)

declare next_loop.simps [simp del]

text \<open>\<open>next\<close> of cdb.go (the name is a keyword here).\<close>

definition next_it :: "CdbIterator \<Rightarrow> error option \<times> CdbIterator" where
  "next_it iter =
     (case initErr iter of
        Some err \<Rightarrow> (Some err, iter)
      | None \<Rightarrow> next_loop iter)"

text \<open>
  \<open>NextBytes\<close>: the value of the next match, read with one \<open>ReadAt\<close> of \<open>dlen\<close> bytes at
  \<open>dpos\<close>.
\<close>

definition NextBytes :: "CdbIterator \<Rightarrow> (error + byte list) \<times> CdbIterator" where
  "NextBytes iter =
     (case next_it iter of
        (Some err, iter') \<Rightarrow> (Inl err, iter')
      | (None, iter') \<Rightarrow>
          (case db iter' (unat (dlen iter')) (unat (dpos iter')) of
             (d, Some err) \<Rightarrow> (Inl (if err = EOF then ErrUnexpectedEOF else err), iter')
           | (d, None) \<Rightarrow> (Inr d, iter')))"

definition Bytes :: "ReaderAt \<Rightarrow> byte list \<Rightarrow> error + byte list" where
  "Bytes c k = fst (NextBytes (Iterate c k))"

definition Exists :: "ReaderAt \<Rightarrow> byte list \<Rightarrow> bool \<times> error option" where
  "Exists c k =
     (case fst (next_it (Iterate c k)) of
        Some err \<Rightarrow> if err = EOF then (False, None) else (False, Some err)
      | None \<Rightarrow> (True, None))"


lemma next_pass_found:
  assumes "next_pass iter = (Return None, iter')"
  shows "unat (hslots iter') - unat (loop iter') < unat (hslots iter) - unat (loop iter)"
proof -
  have a: "loop iter < hslots iter \<and> loop iter' = loop iter + 1 \<and> hslots iter' = hslots iter"
    using assms
    by (auto simp add: next_pass_def Let_def split: if_splits sum.splits prod.splits)
  then have "unat (loop iter) < unat (hslots iter)" by (simp add: word_less_nat_alt)
  moreover have "unat (loop iter') = Suc (unat (loop iter))"
    using a unat_succ_less [of "loop iter" "hslots iter"] by simp
  ultimately show ?thesis using a by simp
qed

lemma next_loop_found:
  "next_loop iter = (None, iter') \<Longrightarrow>
   unat (hslots iter') - unat (loop iter') < unat (hslots iter) - unat (loop iter)"
proof (induction iter rule: next_loop.induct)
  case (1 iter)
  show ?case
  proof (cases "next_pass iter")
    case (Pair oc it1)
    show ?thesis
    proof (cases oc)
      case (Return err)
      with Pair "1.prems" have "next_pass iter = (Return None, iter')"
        by (subst (asm) next_loop.simps) simp
      then show ?thesis by (rule next_pass_found)
    next
      case Continue
      with Pair have c: "next_pass iter = (Continue, it1)" by simp
      then have "next_loop it1 = (None, iter')"
        using "1.prems" by (subst (asm) next_loop.simps) simp
      from "1.IH" [OF c [symmetric] refl this] next_pass_measure [OF c]
      show ?thesis by simp
    qed
  qed
qed

lemma NextBytes_found:
  assumes "NextBytes iter = (Inr v, iter')"
  shows "unat (hslots iter') - unat (loop iter') < unat (hslots iter) - unat (loop iter)"
proof -
  have "next_it iter = (None, iter')"
    using assms by (auto simp add: NextBytes_def split: prod.splits option.splits)
  then have "next_loop iter = (None, iter')"
    by (auto simp add: next_it_def split: option.splits)
  then show ?thesis by (rule next_loop_found)
qed

text \<open>
  Successive \<open>NextBytes\<close> calls on one iterator, up to the first call that returns an
  error: the values they returned, in order, and that error. A successful call moves
  \<open>loop\<close> towards \<open>hslots\<close>, so there are at most \<open>hslots\<close> of them.
\<close>

function drain :: "CdbIterator \<Rightarrow> byte list list \<times> error" where
  "drain iter =
     (case NextBytes iter of
        (Inl err, iter') \<Rightarrow> ([], err)
      | (Inr v, iter') \<Rightarrow> (case drain iter' of (vs, err) \<Rightarrow> (v # vs, err)))"
  by pat_completeness auto
termination
  by (relation "measure (\<lambda>iter. unat (hslots iter) - unat (loop iter))")
     (auto intro: NextBytes_found [OF sym])

declare drain.simps [simp del]

text \<open>
  What it means for an error value to come from the byte source: some \<open>ReadAt\<close> call
  reports it, or reports \<open>io.EOF\<close> where the error is \<open>io.ErrUnexpectedEOF\<close>.
\<close>

definition read_failed :: "ReaderAt \<Rightarrow> error \<Rightarrow> bool" where
  "read_failed rd err \<longleftrightarrow>
     (\<exists>n off. snd (rd n off) = Some err \<or> (err = ErrUnexpectedEOF \<and> snd (rd n off) = Some EOF))"

section \<open>Whole-file iteration\<close>

text \<open>
  \<open>io.ReadFull\<close> on an \<open>io.SectionReader\<close> over \<open>rd\<close> that starts at \<open>base\<close> and is \<open>m\<close>
  bytes long, into a buffer of \<open>m\<close> bytes: \<open>ReadAtLeast\<close> calls \<open>Read\<close> until \<open>m\<close> bytes
  have arrived or a read reports an error; each \<open>Read\<close> is one \<open>ReadAt\<close> for the missing
  bytes. \<open>acc\<close> holds the bytes read so far. A source that keeps returning nothing
  with a \<open>nil\<close> error makes the loop run forever: the result is then \<open>None\<close>.
\<close>

partial_function (option) ReadAtLeast ::
  "ReaderAt \<Rightarrow> nat \<Rightarrow> nat \<Rightarrow> byte list \<Rightarrow> (error + byte list) option" where
  "ReadAtLeast rd base m acc =
     (if length acc < m then
        (case rd (m - length acc) (base + length acc) of
           (d, None) \<Rightarrow> ReadAtLeast rd base m (acc @ d)
         | (d, Some err) \<Rightarrow>
             Some (if m \<le> length (acc @ d) then Inr (acc @ d)
                   else if 0 < length (acc @ d) \<and> err = EOF then Inl ErrUnexpectedEOF
                   else Inl err))
      else Some (Inr acc))"

declare ReadAtLeast.simps [code]

text \<open>An \<open>io.SectionReader\<close> over the database: offset and length.\<close>

type_synonym SectionReader = "nat \<times> nat"

definition ReadFull :: "ReaderAt \<Rightarrow> SectionReader \<Rightarrow> (error + byte list) option" where
  "ReadFull rd sec = ReadAtLeast rd (fst sec) (snd sec) []"

text \<open>
  \<open>ForEachReader\<close>. The callback \<open>onRecordFn\<close> gets the two section readers and the
  state of the variables it has captured, and returns its error and the new state
  (\<open>None\<close> if it does not return). The loop runs while \<open>pos < end\<close> in 32-bit arithmetic;
  on a malformed file \<open>pos\<close> may never reach \<open>end\<close>, and the result is then \<open>None\<close>.
\<close>

partial_function (option) ForEachReader_loop ::
  "ReaderAt \<Rightarrow> (SectionReader \<Rightarrow> SectionReader \<Rightarrow> 's \<Rightarrow> (error option \<times> 's) option) \<Rightarrow> u32 \<Rightarrow> u32 \<Rightarrow> 's
     \<Rightarrow> (error option \<times> 's) option" where
  "ForEachReader_loop c onRecordFn end pos st =
     (if pos < end then
        (case readNums c pos of
           Inl err \<Rightarrow> Some (Some err, st)
         | Inr (klen, dataLen) \<Rightarrow>
             (case onRecordFn (unat (pos + 8), unat klen) (unat (pos + 8 + klen), unat dataLen) st of
                None \<Rightarrow> None
              | Some (Some err, st') \<Rightarrow> Some (Some err, st')
              | Some (None, st') \<Rightarrow>
                  ForEachReader_loop c onRecordFn end (pos + (8 + klen + dataLen)) st'))
      else Some (None, st))"

declare ForEachReader_loop.simps [code]

definition headerSize :: u32 where
  "headerSize = 256 * 8"

definition ForEachReader ::
  "ReaderAt \<Rightarrow> (SectionReader \<Rightarrow> SectionReader \<Rightarrow> 's \<Rightarrow> (error option \<times> 's) option) \<Rightarrow> 's
     \<Rightarrow> (error option \<times> 's) option" where
  "ForEachReader c onRecordFn st =
     (case readNums c 0 of
        Inl err \<Rightarrow> Some (Some err, st)
      | Inr (end, _) \<Rightarrow> ForEachReader_loop c onRecordFn end headerSize st)"

text \<open>
  \<open>ForEachBytes\<close>: the function literal it passes to \<open>ForEachReader\<close> reads key and value
  in full and hands them to \<open>onRecordFn\<close>.
\<close>

definition ForEachBytes_callback ::
  "ReaderAt \<Rightarrow> (byte list \<Rightarrow> byte list \<Rightarrow> 's \<Rightarrow> error option \<times> 's)
     \<Rightarrow> SectionReader \<Rightarrow> SectionReader \<Rightarrow> 's \<Rightarrow> (error option \<times> 's) option" where
  "ForEachBytes_callback c onRecordFn keyReader valReader st =
     (case ReadFull c keyReader of
        None \<Rightarrow> None
      | Some (Inl err) \<Rightarrow> Some (Some err, st)
      | Some (Inr kbuf) \<Rightarrow>
          (case ReadFull c valReader of
             None \<Rightarrow> None
           | Some (Inl err) \<Rightarrow> Some (Some err, st)
           | Some (Inr dbuf) \<Rightarrow> Some (onRecordFn kbuf dbuf st)))"

definition ForEachBytes ::
  "ReaderAt \<Rightarrow> (byte list \<Rightarrow> byte list \<Rightarrow> 's \<Rightarrow> error option \<times> 's) \<Rightarrow> 's
     \<Rightarrow> (error option \<times> 's) option" where
  "ForEachBytes c onRecordFn st = ForEachReader c (ForEachBytes_callback c onRecordFn) st"

section \<open>Table builder\<close>

text \<open>
  Modelled from the spec: the builder (\<open>Make\<close>) is called by writer.go and by the tests, but
  its file is not among the sources. What follows is section 4.2 of the spec, with the
  layout of sections 3 and 6: numbers are 32-bit little-endian; file positions are
  counted as natural numbers and written as 32-bit values.
\<close>

definition PutUint32 :: "u32 \<Rightarrow> byte list" where
  "PutUint32 v = [ucast v, ucast (drop_bit 8 v), ucast (drop_bit 16 v), ucast (drop_bit 24 v)]"

definition putNums :: "u32 \<Rightarrow> u32 \<Rightarrow> byte list" where
  "putNums a b = PutUint32 a @ PutUint32 b"

type_synonym entry = "u32 \<times> nat"
type_synonym slot = "entry option"

definition record_bytes :: "byte list \<times> byte list \<Rightarrow> byte list" where
  "record_bytes kv =
     putNums (of_nat (length (fst kv))) (of_nat (length (snd kv))) @ fst kv @ snd kv"

text \<open>
  Step 2, for one record. The state is the output written so far (from offset 2048 on),
  the 256 per-bucket entry lists, and the write cursor.
\<close>

definition write_record ::
  "byte list \<times> entry list list \<times> nat \<Rightarrow> byte list \<times> byte list \<Rightarrow> byte list \<times> entry list list \<times> nat" where
  "write_record st kv =
     (case st of (out, buckets, pos) \<Rightarrow>
        let h = checksum (fst kv);
            b = unat h mod 256
        in (out @ record_bytes kv,
            buckets[b := buckets ! b @ [(h, pos)]],
            pos + 8 + length (fst kv) + length (snd kv)))"

text \<open>
  Step 3, linear probing: \<open>probe tbl i n\<close> scans at most \<open>n\<close> slots forward from slot \<open>i\<close>,
  wrapping to 0 at the end of the table, until it finds an empty slot.
\<close>

fun probe :: "slot list \<Rightarrow> nat \<Rightarrow> nat \<Rightarrow> nat option" where
  "probe tbl i 0 = None"
| "probe tbl i (Suc n) =
     (if tbl ! i = None then Some i
      else probe tbl (if Suc i = length tbl then 0 else Suc i) n)"

definition home :: "nat \<Rightarrow> u32 \<Rightarrow> nat" where
  "home m h = unat (h div 256) mod m"

definition place :: "slot list \<Rightarrow> entry \<Rightarrow> slot list" where
  "place tbl e =
     (case probe tbl (home (length tbl) (fst e)) (length tbl) of
        Some i \<Rightarrow> tbl[i := Some e]
      | None \<Rightarrow> tbl)"

definition subtable :: "entry list \<Rightarrow> slot list" where
  "subtable es = foldl place (replicate (2 * length es) None) es"

definition slot_bytes :: "slot \<Rightarrow> byte list" where
  "slot_bytes x = (case x of None \<Rightarrow> putNums 0 0 | Some (h, p) \<Rightarrow> putNums h (of_nat p))"

text \<open>
  Step 3, for one bucket: the sub-table follows the previous one, and its position and
  slot count go into the header. The state is the output so far, the header entries
  so far, and the write cursor.
\<close>

definition write_table ::
  "byte list \<times> (nat \<times> nat) list \<times> nat \<Rightarrow> entry list \<Rightarrow> byte list \<times> (nat \<times> nat) list \<times> nat" where
  "write_table st es =
     (case st of (out, header, pos) \<Rightarrow>
        let t = subtable es
        in (out @ concat (map slot_bytes t), header @ [(pos, length t)], pos + 8 * length t))"

text \<open>Steps 1 to 4: the complete file for a sequence of records.\<close>

definition Make_records :: "(byte list \<times> byte list) list \<Rightarrow> byte list" where
  "Make_records recs =
     (case foldl write_record ([], replicate 256 [], 2048) recs of (out, buckets, pos) \<Rightarrow>
        case foldl write_table (out, [], pos) buckets of (out, header, pos) \<Rightarrow>
          concat (map (\<lambda>(p, n). putNums (of_nat p) (of_nat n)) header) @ out)"

text \<open>
  The scan of \<open>next\<close> with a budget of slot reads: \<open>next_fuel n\<close> runs the loop of
  \<open>next\<close> but allows at most \<open>n\<close> passes that get as far as reading a slot; with the
  budget used up only the exit \<open>loop >= hslots\<close>, which reads nothing, is left.
\<close>

fun next_fuel :: "nat \<Rightarrow> CdbIterator \<Rightarrow> (error option \<times> CdbIterator) option" where
  "next_fuel 0 iter = (if hslots iter \<le> loop iter then Some (Some EOF, iter) else None)"
| "next_fuel (Suc n) iter =
     (case next_pass iter of
        (Return err, iter') \<Rightarrow> Some (err, iter')
      | (Continue, iter') \<Rightarrow> next_fuel n iter')"

section \<open>Streaming writer\<close>

text \<open>
  The decimal digits that \<open>%v\<close> prints for a length, as bytes.
\<close>

fun decimal :: "nat \<Rightarrow> byte list" where
  "decimal n = (if n < 10 then [48 + of_nat n] else decimal (n div 10) @ [48 + of_nat (n mod 10)])"

declare decimal.simps [simp del]

text \<open>
  One record as \<open>Writer.Write\<close> formats it:
  \<open>fmt.Fprintf(w.pipeWriter, "+%v,%v:%s->%s\n", len(key), len(val), key, val)\<close>.
\<close>

definition record_line :: "byte list \<Rightarrow> byte list \<Rightarrow> byte list" where
  "record_line k v =
     [43] @ decimal (length k) @ [44] @ decimal (length v) @ [58] @ k @ [45, 62] @ v @ [10]"

text \<open>
  The channel \<open>doneCh\<close> has room for one value and the builder task sends on it once:
  nothing has been sent yet, the result of \<open>Make\<close> is waiting in it, or that result has
  been received.
\<close>

datatype chan = Pending | Ready "error option" | Received

text \<open>
  A \<open>Writer\<close>. Of the pipe the model keeps the writes issued on it, in order, and whether
  the writing end has been closed.
\<close>

record Writer =
  pipeWriter :: "byte list list"
  pipeClosed :: bool
  doneCh :: chan
  makeErr :: "error option"

definition NewWriter :: Writer where
  "NewWriter = \<lparr>pipeWriter = [], pipeClosed = False, doneCh = Pending, makeErr = None\<rparr>"

text \<open>The builder task: \<open>w.doneCh <- Make(ws, pipeReader)\<close>, with \<open>r\<close> the result of \<open>Make\<close>.\<close>

definition Make_returns :: "error option \<Rightarrow> Writer \<Rightarrow> Writer" where
  "Make_returns r w = (if doneCh w = Pending then w\<lparr>doneCh := Ready r\<rparr> else w)"

definition receive_done :: "Writer \<Rightarrow> Writer" where
  "receive_done w =
     (case doneCh w of
        Ready err \<Rightarrow> w\<lparr>makeErr := err, doneCh := Received\<rparr>
      | _ \<Rightarrow> w)"

text \<open>
  \<open>Write\<close>; \<open>perr\<close> is the error that the write on the pipe returns, should \<open>Write\<close> get
  that far.
\<close>

definition Write :: "error option \<Rightarrow> byte list \<Rightarrow> byte list \<Rightarrow> Writer \<Rightarrow> error option \<times> Writer" where
  "Write perr k v w =
     (let w' = receive_done w
      in case makeErr w' of
           Some err \<Rightarrow> (Some err, w')
         | None \<Rightarrow> (perr, w'\<lparr>pipeWriter := pipeWriter w' @ [record_line k v]\<rparr>))"

text \<open>
  \<open>Close\<close>; \<open>fin\<close> is the result that the builder task sends while \<open>Close\<close> waits for it,
  \<open>None\<close> if it sends nothing. The first component of the result is \<open>None\<close> when \<open>Close\<close>
  does not return: the receive blocks for ever.
\<close>

definition Close :: "error option option \<Rightarrow> Writer \<Rightarrow> error option option \<times> Writer" where
  "Close fin w =
     (case makeErr w of
        Some err \<Rightarrow> (Some (Some err), w)
      | None \<Rightarrow>
          (let w' = w\<lparr>pipeWriter := pipeWriter w @ [[10]], pipeClosed := True\<rparr>
           in case doneCh w' of
                Ready r \<Rightarrow> (Some r, w'\<lparr>doneCh := Received\<rparr>)
              | Pending \<Rightarrow>
                  (case fin of
                     Some r \<Rightarrow> (Some r, w'\<lparr>doneCh := Received\<rparr>)
                   | None \<Rightarrow> (None, w'))
              | Received \<Rightarrow> (None, w')))"

text \<open>
  What can happen to a \<open>Writer\<close>: its owner calls \<open>Write\<close> or \<open>Close\<close>, and the builder
  task delivers its result.
\<close>

datatype event =
    CallWrite "error option" "byte list" "byte list"
  | CallClose "error option option"
  | MakeReturns "error option"

fun step :: "Writer \<Rightarrow> event \<Rightarrow> Writer" where
  "step w (CallWrite perr k v) = snd (Write perr k v w)"
| "step w (CallClose fin) = snd (Close fin w)"
| "step w (MakeReturns r) = Make_returns r w"

text \<open>Successive calls of \<open>Write\<close>: the errors they return and the final state.\<close>

fun Writes :: "Writer \<Rightarrow> (error option \<times> byte list \<times> byte list) list \<Rightarrow> error option list \<times> Writer" where
  "Writes w [] = ([], w)"
| "Writes w ((perr, k, v) # cs) =
     (case Write perr k v w of (r, w') \<Rightarrow>
        case Writes w' cs of (rs, w'') \<Rightarrow> (r # rs, w''))"

section \<open>Textual interchange format\<close>

text \<open>
  The input of the tests, built by \<open>init\<close> in cdb_test.go: one line per record as above,
  then a newline.
\<close>

definition text_of :: "(byte list \<times> byte list) list \<Rightarrow> byte list" where
  "text_of recs = concat (map (\<lambda>kv. record_line (fst kv) (snd kv)) recs) @ [10]"

text \<open>
  Modelled from the spec: \<open>Make\<close> reads the textual format and \<open>Dump\<close> writes it, and
  neither is among the sources. Section 6 gives the format: one line per record,
  \<open>+klen,vlen:key->value\<close> and a newline, and a blank line at the end of the stream.
  \<open>Make\<close> is the parser of that format followed by the builder above; \<open>Dump\<close> is
  section 4.5: it walks the records with \<open>ForEachBytes\<close> and writes one line for each,
  then the blank line.
\<close>

definition is_digit :: "byte \<Rightarrow> bool" where
  "is_digit c \<longleftrightarrow> 48 \<le> c \<and> c \<le> 57"

definition digits_value :: "byte list \<Rightarrow> nat" where
  "digits_value ds = foldl (\<lambda>a d. 10 * a + unat (d - 48)) 0 ds"

text \<open>A number in decimal digits up to the delimiter \<open>delim\<close>; the rest of the input follows.\<close>

definition readNum :: "byte \<Rightarrow> byte list \<Rightarrow> (nat \<times> byte list) option" where
  "readNum delim inp =
     (let ds = takeWhile is_digit inp
      in if ds = [] then None
         else case dropWhile is_digit inp of
                [] \<Rightarrow> None
              | c # rest \<Rightarrow> if c = delim then Some (digits_value ds, rest) else None)"

text \<open>One record \<open>klen,vlen:key->data\n\<close>, after its leading \<open>+\<close>.\<close>

definition parse_record ::
  "byte list \<Rightarrow> error + ((byte list \<times> byte list) \<times> byte list)" where
  "parse_record inp =
     (case readNum 44 inp of
        None \<Rightarrow> Inl BadFormatError
      | Some (klen, r1) \<Rightarrow>
          (case readNum 58 r1 of
             None \<Rightarrow> Inl BadFormatError
           | Some (vlen, r2) \<Rightarrow>
               let r3 = drop klen r2; r4 = drop 2 r3; r5 = drop vlen r4
               in if take 2 r3 \<noteq> [45, 62] then Inl BadFormatError
                  else if take 1 r5 \<noteq> [10] then Inl BadFormatError
                  else Inr ((take klen r2, take vlen r4), drop 1 r5)))"

lemma readNum_shorter: "readNum delim inp = Some (n, rest) \<Longrightarrow> length rest < length inp"
proof -
  assume a: "readNum delim inp = Some (n, rest)"
  then obtain c where "dropWhile is_digit inp = c # rest"
    by (auto simp add: readNum_def Let_def split: if_splits list.splits)
  then have "length (dropWhile is_digit inp) = Suc (length rest)" by simp
  moreover have "length (dropWhile is_digit inp) \<le> length inp" by (rule length_dropWhile_le)
  ultimately show ?thesis by simp
qed

lemma parse_record_shorter:
  "parse_record inp = Inr (kv, rest) \<Longrightarrow> length rest < length inp"
  by (auto simp add: parse_record_def Let_def split: option.splits prod.splits if_splits
      dest!: readNum_shorter)

function parse_records :: "byte list \<Rightarrow> error + (byte list \<times> byte list) list" where
  "parse_records inp =
     (case inp of
        [] \<Rightarrow> Inl ErrUnexpectedEOF
      | c # rest \<Rightarrow>
          if c = 10 then Inr []
          else if c \<noteq> 43 then Inl BadFormatError
          else case parse_record rest of
                 Inl err \<Rightarrow> Inl err
               | Inr (kv, rest') \<Rightarrow>
                   (case parse_records rest' of
                      Inl err \<Rightarrow> Inl err
                    | Inr rs \<Rightarrow> Inr (kv # rs)))"
  by pat_completeness auto
termination
  by (relation "measure length") (auto dest!: parse_record_shorter)

declare parse_records.simps [simp del]

definition Make :: "byte list \<Rightarrow> error + byte list" where
  "Make inp = (case parse_records inp of Inl err \<Rightarrow> Inl err | Inr recs \<Rightarrow> Inr (Make_records recs))"

definition Dump :: "ReaderAt \<Rightarrow> (error + byte list) option" where
  "Dump c =
     (case ForEachBytes c (\<lambda>k v out. (None, out @ record_line k v)) [] of
        None \<Rightarrow> None
      | Some (Some err, out) \<Rightarrow> Some (Inl err)
      | Some (None, out) \<Rightarrow> Some (Inr (out @ [10])))"

section \<open>Example inputs\<close>

text \<open>A malformed sub-table of two slots, both occupied by a foreign hash, at offset 0.\<close>

definition full_table :: "byte list" where
  "full_table = [7,0,0,0, 9,0,0,0,  7,0,0,0, 9,0,0,0]"

definition probe_iter :: CdbIterator where
  "probe_iter = \<lparr>db = bytesReader False full_table, initErr = None, key = [], loop = 0,
      khash = 5381, kpos = 8, hpos = 0, hslots = 2, dpos = 0, dlen = 0\<rparr>"

text \<open>A file cut off after header entry 5, which says: sub-table at 2048, four slots.\<close>

definition tiny_header :: "byte list" where
  "tiny_header = replicate 40 0 @ [0,8,0,0, 4,0,0,0]"

text \<open>
  The records of the tests: \<open>one\<close> with value \<open>1\<close>; \<open>two\<close> with \<open>2\<close> and \<open>22\<close>; \<open>three\<close>
  with \<open>3\<close>, \<open>33\<close> and \<open>333\<close>, as bytes.
\<close>

definition test_recs :: "(byte list \<times> byte list) list" where
  "test_recs =
     [([111,110,101], [49]),
      ([116,119,111], [50]), ([116,119,111], [50,50]),
      ([116,104,114,101,101], [51]), ([116,104,114,101,101], [51,51]),
      ([116,104,114,101,101], [51,51,51])]"

text \<open>Two keys with the same hash, \<open>bc\<close> and \<open>cB\<close>, with one value each.\<close>

definition collide_recs :: "(byte list \<times> byte list) list" where
  "collide_recs = [([98,99], [1]), ([99,66], [2])]"

section \<open>The hash function\<close>

lemma checksum_snoc: "checksum (k @ [c]) = (push_bit 5 (checksum k) + checksum k) XOR ucast c"
  by (simp add: checksum_def)

lemma unat_ucast_byte: "unat (ucast (c::byte) :: u32) = unat c"
proof -
  have "unat c < 2 ^ 8" using unsigned_less [of c] by simp
  then have "unat c < 2 ^ 32" by simp
  then show ?thesis by (simp add: unsigned_ucast_eq take_bit_nat_eq_self)
qed

text \<open>
  C5. The hash starts at 5381; each further byte \<open>c\<close> turns the accumulator \<open>h\<close> into
  \<open>((h << 5) + h) XOR c\<close> in 32 bits, which is \<open>h * 33 XOR c\<close> modulo \<open>2^32\<close>; it is a
  function of the key alone, and the lookup's \<open>Iterate\<close> stores exactly this value.
\<close>

theorem checksum_spec:
  "checksum [] = 5381 \<and>
   checksum (k @ [c]) = (push_bit 5 (checksum k) + checksum k) XOR ucast c \<and>
   checksum (k @ [c]) = (checksum k * 33) XOR ucast c \<and>
   unat (checksum (k @ [c])) = (unat (checksum k) * 33 mod 2 ^ 32) XOR unat c \<and>
   khash (Iterate rd k) = checksum k"
proof -
  have a: "push_bit 5 (checksum k) + checksum k = checksum k * 33"
    by (simp add: push_bit_eq_mult)
  have b: "unat ((checksum k * 33) XOR ucast c) = (unat (checksum k) * 33 mod 2 ^ 32) XOR unat c"
    by (simp add: unsigned_xor_eq unat_ucast_byte unat_word_ariths)
  have c: "khash (Iterate rd k) = checksum k"
    by (simp add: Iterate_def Let_def split: sum.splits prod.splits)
  have d: "checksum [] = 5381"
    by (simp add: checksum_def)
  have e: "checksum (k @ [c]) = (checksum k * 33) XOR ucast c"
    using checksum_snoc [of k c] a by simp
  show ?thesis using b c d e checksum_snoc [of k c] by simp
qed

section \<open>Decoding fixed-size fields\<close>



section \<open>Initialising an iterator\<close>

text \<open>
  C4. \<open>Iterate\<close> stores \<open>khash = checksum key\<close> and reads the header entry at byte offset
  \<open>(khash mod 256) * 8\<close>, which gives \<open>(hpos, hslots)\<close>. With \<open>hslots = 0\<close> the iterator is
  exhausted at once: its \<open>initErr\<close> is \<open>io.EOF\<close> and \<open>next\<close> returns it without reading.
  Otherwise \<open>kpos = hpos + ((khash div 256) mod hslots) * 8\<close> and \<open>loop = 0\<close>.
\<close>

theorem Iterate_init:
  "khash (Iterate c k) = checksum k \<and> key (Iterate c k) = k \<and> db (Iterate c k) = c \<and>
   loop (Iterate c k) = 0 \<and>
   unat (checksum k mod 256 * 8) = unat (checksum k) mod 256 * 8 \<and>
   (readNums c (checksum k mod 256 * 8) = Inl err \<longrightarrow> initErr (Iterate c k) = Some err) \<and>
   (readNums c (checksum k mod 256 * 8) = Inr (hp, hs) \<longrightarrow>
      hpos (Iterate c k) = hp \<and> hslots (Iterate c k) = hs \<and>
      (hs = 0 \<longrightarrow> initErr (Iterate c k) = Some EOF \<and>
                  next_it (Iterate c k) = (Some EOF, Iterate c k)) \<and>
      (hs \<noteq> 0 \<longrightarrow> initErr (Iterate c k) = None \<and>
                  kpos (Iterate c k) = hp + (checksum k div 256 mod hs) * 8))"
proof -
  have "unat (checksum k mod 256) = unat (checksum k) mod 256"
    by (simp add: unat_mod)
  moreover have "unat (checksum k) mod 256 < 256" by simp
  ultimately have "unat (checksum k mod 256 * 8) = unat (checksum k) mod 256 * 8"
    by (simp add: unat_word_ariths)
  then show ?thesis
    by (auto simp add: Iterate_def Let_def next_it_def split: sum.splits prod.splits)
qed

theorem Iterate_init_witness:
  "readNums (bytesReader False tiny_header) (checksum [] mod 256 * 8) = Inr (2048, 4) \<and>
   (4::u32) \<noteq> 0 \<and>
   hslots (Iterate (bytesReader False tiny_header) []) = 4 \<and>
   kpos (Iterate (bytesReader False tiny_header) []) = 2056 \<and>
   loop (Iterate (bytesReader False tiny_header) []) = 0"
proof -
  have a: "checksum [] mod 256 * 8 = 40" by (simp add: checksum_def)
  have b: "readNums (bytesReader False tiny_header) 40 = Inr (2048, 4)"
    by (simp add: readNums_def bytesReader_def tiny_header_def)
  have c: "checksum [] div 256 mod 4 = 1" by (simp add: checksum_def)
  show ?thesis
    using Iterate_init [of "bytesReader False tiny_header" "[]" EOF 2048 4] a b c by simp
qed

section \<open>Termination of the scan\<close>

lemma next_fuel_enough:
  "unat (hslots iter) - unat (loop iter) \<le> n \<Longrightarrow> next_fuel n iter = Some (next_loop iter)"
proof (induction n arbitrary: iter)
  case 0
  then have "hslots iter \<le> loop iter" by (simp add: word_le_nat_alt)
  then show ?case by (subst next_loop.simps) (simp add: next_pass_def)
next
  case (Suc n)
  show ?case
  proof (cases "next_pass iter")
    case (Pair oc iter')
    show ?thesis
    proof (cases oc)
      case (Return e)
      with Pair show ?thesis by (subst next_loop.simps) simp
    next
      case Continue
      with Pair have c: "next_pass iter = (Continue, iter')" by simp
      from next_pass_measure [OF c] Suc.prems
      have "unat (hslots iter') - unat (loop iter') \<le> n" by linarith
      from Suc.IH [OF this] c show ?thesis by (subst next_loop.simps) simp
    qed
  qed
qed

lemma readNums_full_table_8: "readNums (bytesReader False full_table) 8 = Inr (7, 9)"
  by (simp add: readNums_def bytesReader_def full_table_def)

lemma readNums_full_table_0: "readNums (bytesReader False full_table) 0 = Inr (7, 9)"
  by (simp add: readNums_def bytesReader_def full_table_def)

text \<open>
  C3. For every iterator state, whatever the byte source holds, the loop of \<open>next\<close>
  returns, and a budget of \<open>hslots - loop\<close> slot reads (at most \<open>hslots\<close>) is enough for
  it. A pass returns \<open>io.EOF\<close> when \<open>loop >= hslots\<close>, and when the slot it reads has
  record position 0. Every pass that reads an occupied slot increments \<open>loop\<close> and moves
  \<open>kpos\<close> on by 8, back to \<open>hpos\<close> when it reaches \<open>hpos + hslots * 8\<close>, whether or not the
  slot matches.
\<close>

theorem next_terminates_within_hslots:
  "next_fuel (unat (hslots iter) - unat (loop iter)) iter = Some (next_loop iter) \<and>
   unat (hslots iter) - unat (loop iter) \<le> unat (hslots iter) \<and>
   (hslots iter \<le> loop iter \<longrightarrow> next_pass iter = (Return (Some EOF), iter)) \<and>
   (loop iter < hslots iter \<and> readNums (db iter) (kpos iter) = Inr (kh, 0)
      \<longrightarrow> next_pass iter = (Return (Some EOF), iter)) \<and>
   (loop iter < hslots iter \<and> readNums (db iter) (kpos iter) = Inr (kh, recPos) \<and> recPos \<noteq> 0
      \<longrightarrow> loop (snd (next_pass iter)) = loop iter + 1 \<and>
          kpos (snd (next_pass iter)) =
            (if kpos iter + 8 = hpos iter + hslots iter * 8 then hpos iter else kpos iter + 8))"
proof -
  have a: "next_fuel (unat (hslots iter) - unat (loop iter)) iter = Some (next_loop iter)"
    by (rule next_fuel_enough) simp
  have b: "hslots iter \<le> loop iter \<Longrightarrow> next_pass iter = (Return (Some EOF), iter)"
    by (simp add: next_pass_def)
  have c: "loop iter < hslots iter \<Longrightarrow> readNums (db iter) (kpos iter) = Inr (kh, 0)
      \<Longrightarrow> next_pass iter = (Return (Some EOF), iter)"
    by (simp add: next_pass_def not_le)
  have d: "loop iter < hslots iter \<Longrightarrow> readNums (db iter) (kpos iter) = Inr (kh, recPos)
      \<Longrightarrow> recPos \<noteq> 0
      \<Longrightarrow> loop (snd (next_pass iter)) = loop iter + 1 \<and>
          kpos (snd (next_pass iter)) =
            (if kpos iter + 8 = hpos iter + hslots iter * 8 then hpos iter else kpos iter + 8)"
    by (simp add: next_pass_def Let_def not_le [symmetric] split: sum.splits prod.splits)
  show ?thesis using a b c d by simp
qed

theorem next_terminates_within_hslots_witness:
  "loop probe_iter < hslots probe_iter \<and>
   readNums (db probe_iter) (kpos probe_iter) = Inr (7, 9) \<and> (9::u32) \<noteq> 0 \<and>
   loop (snd (next_pass probe_iter)) = 1 \<and> kpos (snd (next_pass probe_iter)) = 0 \<and>
   next_loop probe_iter = (Some EOF, probe_iter\<lparr>loop := 2, kpos := 8\<rparr>)"
proof -
  have n: "unat (hslots probe_iter) - unat (loop probe_iter) = Suc (Suc 0)"
    by (simp add: probe_iter_def)
  have f: "next_fuel (Suc (Suc 0)) probe_iter
      = Some (Some EOF, probe_iter\<lparr>loop := 2, kpos := 8\<rparr>)"
    by (simp add: probe_iter_def next_pass_def advance_def Let_def word_le_nat_alt
        readNums_full_table_8 readNums_full_table_0)
  have r: "readNums (db probe_iter) (kpos probe_iter) = Inr (7, 9)"
    by (simp add: probe_iter_def readNums_full_table_8)
  have l: "loop probe_iter < hslots probe_iter"
    by (simp add: probe_iter_def)
  have w: "kpos probe_iter + 8 = hpos probe_iter + hslots probe_iter * 8"
    by (simp add: probe_iter_def)
  have z: "loop probe_iter = 0" "hpos probe_iter = 0"
    by (simp_all add: probe_iter_def)
  from next_terminates_within_hslots [of probe_iter 7 9] n f r l w z
  show ?thesis by simp
qed


section \<open>The file the builder writes\<close>

definition occupied :: "slot \<Rightarrow> bool" where
  "occupied x \<longleftrightarrow> x \<noteq> None"

definition run :: "slot list \<Rightarrow> nat \<Rightarrow> slot list" where
  "run tbl s = takeWhile occupied (rotate s tbl)"

lemma occupied_simps [simp]: "occupied None = False" "occupied (Some e) = True"
  by (simp_all add: occupied_def)

lemma length_place [simp]: "length (place tbl e) = length tbl"
  by (simp add: place_def split: option.splits)

lemma length_foldl_place [simp]: "length (foldl place tbl es) = length tbl"
  by (induction es arbitrary: tbl) simp_all

lemma length_subtable [simp]: "length (subtable es) = 2 * length es"
  by (simp add: subtable_def)

text \<open>probe scans the rotation\<close>

lemma probe_rotate:
  assumes "i < length tbl" "n \<le> length tbl"
  shows "probe tbl i n =
     (let l = length (takeWhile occupied (take n (rotate i tbl)))
      in if l < n then Some ((i + l) mod length tbl) else None)"
  using assms
proof (induction n arbitrary: i)
  case 0
  then show ?case by simp
next
  case (Suc n)
  let ?m = "length tbl"
  have pos: "0 < length tbl" using Suc.prems by linarith
  have hd: "rotate i tbl ! 0 = tbl ! i"
    using nth_rotate [OF pos, of i] Suc.prems by simp
  have ne: "rotate i tbl \<noteq> []" using pos by simp
  then obtain x xs where rx: "rotate i tbl = x # xs" by (cases "rotate i tbl") auto
  with hd have x: "x = tbl ! i" by simp
  show ?case
  proof (cases "tbl ! i = None")
    case True
    then show ?thesis using rx x Suc.prems by simp
  next
    case False
    let ?i' = "if Suc i = ?m then 0 else Suc i"
    have i': "?i' < ?m" using Suc.prems by auto
    have rot: "rotate ?i' tbl = xs @ [x]"
    proof -
      have "rotate (Suc i) tbl = rotate1 (rotate i tbl)" by simp
      also have "\<dots> = xs @ [x]" by (simp add: rx)
      finally have a: "rotate (Suc i) tbl = xs @ [x]" .
      show ?thesis
      proof (cases "Suc i = ?m")
        case True
        then have "rotate (Suc i) tbl = rotate 0 tbl"
          by (metis mod_self rotate_conv_mod)
        with a True show ?thesis by simp
      next
        case False
        with a show ?thesis by simp
      qed
    qed
    have len: "length xs = ?m - 1"
      using rx by (metis length_rotate length_Cons diff_Suc_1)
    have n: "n \<le> length xs" using Suc.prems len by simp
    have tk: "take n (rotate ?i' tbl) = take n xs" using rot n by simp
    have IH: "probe tbl ?i' n =
       (let l = length (takeWhile occupied (take n xs))
        in if l < n then Some ((?i' + l) mod ?m) else None)"
      using Suc.IH [OF i'] Suc.prems tk by simp
    have md: "(?i' + l) mod ?m = (i + Suc l) mod ?m" for l
    proof (cases "Suc i = ?m")
      case True
      then have "i + Suc l = ?m + l" by simp
      then have "(i + Suc l) mod ?m = l mod ?m" by (metis mod_add_self1)
      with True show ?thesis by simp
    next
      case False
      then show ?thesis by simp
    qed
    have ox: "occupied x" using False x by (simp add: occupied_def)
    have step: "probe tbl i (Suc n) = probe tbl ?i' n" using False by auto
    show ?thesis
      unfolding step IH using rx ox md by (simp add: Let_def)
  qed
qed


lemma probe_run:
  assumes "i < length tbl"
  shows "probe tbl i (length tbl) =
     (if length (run tbl i) < length tbl then Some ((i + length (run tbl i)) mod length tbl) else None)"
  using probe_rotate [OF assms, of "length tbl"] by (simp add: run_def Let_def)

lemma mod_lt2: "a < 2 * m \<Longrightarrow> (a::nat) mod m = (if a < m then a else a - m)"
  by (simp add: le_mod_geq)

lemma wrap_back:
  fixes s j m :: nat
  assumes "s < m" "j < m"
  shows "(s + (j + m - s) mod m) mod m = j"
proof -
  have a: "(j + m - s) mod m = (if j + m - s < m then j + m - s else j + m - s - m)"
    using assms by (intro mod_lt2) linarith
  have b: "(s + x) mod m = (if s + x < m then s + x else s + x - m)" if "x < m" for x
    using assms that by (intro mod_lt2) linarith
  show ?thesis
  proof (cases "j + m - s < m")
    case True
    then have "(j + m - s) mod m = j + m - s" by simp
    moreover have "(s + (j + m - s)) mod m = j"
      using b [OF True] True assms by (simp split: if_splits)
    ultimately show ?thesis by (simp only:)
  next
    case False
    then have "(j + m - s) mod m = j - s" using a assms by (simp only: if_False; linarith?)
    moreover have "(s + (j - s)) mod m = j" using False assms by simp
    ultimately show ?thesis by (simp only:)
  qed
qed

lemma wrap_home:
  fixes s l m :: nat
  assumes "s < m" "l < m"
  shows "((s + l) mod m + m - s) mod m = l"
proof -
  have a: "(s + l) mod m = (if s + l < m then s + l else s + l - m)"
    using assms by (intro mod_lt2) linarith
  show ?thesis
  proof (cases "s + l < m")
    case True
    then have "(s + l) mod m + m - s = m + l" using a by (simp only: if_True; linarith?)
    then have "((s + l) mod m + m - s) mod m = (m + l) mod m" by (simp only:)
    also have "\<dots> = l" using assms by (simp only: mod_add_self1 mod_less)
    finally show ?thesis .
  next
    case False
    then have "(s + l) mod m + m - s = l" using a by (simp only: if_False; linarith?)
    then have "((s + l) mod m + m - s) mod m = l mod m" by (simp only:)
    then show ?thesis using assms by (simp only: mod_less)
  qed
qed

lemma wrap_iff:
  fixes s j n m :: nat
  assumes "s < m" "j < m" "n < m"
  shows "(s + n) mod m = j \<longleftrightarrow> n = (j + m - s) mod m"
  using wrap_back [OF assms(1,2)] wrap_home [OF assms(1,3)] by (metis)

lemma rotate_update:
  assumes "s < length xs" "j < length xs"
  shows "rotate s (xs[j := x]) = (rotate s xs)[(j + length xs - s) mod length xs := x]"
proof (rule nth_equalityI)
  show "length (rotate s (xs[j := x])) = length ((rotate s xs)[(j + length xs - s) mod length xs := x])"
    by simp
next
  fix n assume "n < length (rotate s (xs[j := x]))"
  then have n: "n < length xs" by simp
  let ?m = "length xs"
  have eq: "(s + n) mod ?m = j \<longleftrightarrow> n = (j + ?m - s) mod ?m"
    using wrap_iff [OF assms(1) assms(2) n] .
  have pos: "0 < ?m" using n by linarith
  have lt: "(s + n) mod ?m < ?m" using pos by simp
  have lt2: "(j + ?m - s) mod ?m < ?m" using pos by simp
  show "rotate s (xs[j := x]) ! n = (rotate s xs)[(j + ?m - s) mod ?m := x] ! n"
  proof (cases "(s + n) mod ?m = j")
    case True
    then show ?thesis using n lt lt2 eq assms by (simp add: nth_rotate)
  next
    case False
    then show ?thesis using n lt lt2 eq assms by (simp add: nth_rotate)
  qed
qed

lemma takeWhile_update:
  assumes "j < length xs" "\<not> occupied (xs ! j)"
  shows "takeWhile occupied (xs[j := Some e]) =
     (if length (takeWhile occupied xs) = j
      then takeWhile occupied xs @ Some e # takeWhile occupied (drop (Suc j) xs)
      else takeWhile occupied xs)"
  using assms
proof (induction xs arbitrary: j)
  case Nil
  then show ?case by simp
next
  case (Cons x xs)
  show ?case
  proof (cases j)
    case 0
    with Cons.prems show ?thesis by simp
  next
    case (Suc j')
    with Cons.prems Cons.IH [of j'] show ?thesis by simp
  qed
qed

definition entries_of :: "slot list \<Rightarrow> entry list" where
  "entries_of xs = map the (filter occupied xs)"

lemma entries_of_simps [simp]:
  "entries_of [] = []"
  "entries_of (None # xs) = entries_of xs"
  "entries_of (Some e # xs) = e # entries_of xs"
  "entries_of (xs @ ys) = entries_of xs @ entries_of ys"
  by (simp_all add: entries_of_def)

lemma mset_entries_of_update:
  "j < length xs \<Longrightarrow> \<not> occupied (xs ! j) \<Longrightarrow>
   mset (entries_of (xs[j := Some e])) = add_mset e (mset (entries_of xs))"
proof (induction xs arbitrary: j)
  case Nil
  then show ?case by simp
next
  case (Cons x xs)
  show ?case
  proof (cases j)
    case 0
    with Cons.prems show ?thesis by (cases x) simp_all
  next
    case (Suc j')
    with Cons.prems Cons.IH [of j'] show ?thesis by (cases x) simp_all
  qed
qed

lemma mset_entries_of_rotate: "mset (entries_of (rotate s xs)) = mset (entries_of xs)"
proof -
  have r1: "mset (rotate1 ys) = mset ys" for ys :: "slot list"
    by (cases ys) simp_all
  have "mset (rotate s xs) = mset xs"
    by (induction s) (simp_all add: r1)
  then have "filter_mset occupied (mset (rotate s xs)) = filter_mset occupied (mset xs)"
    by simp
  then have "mset (filter occupied (rotate s xs)) = mset (filter occupied xs)"
    by (simp only: mset_filter)
  then have "mset (map the (filter occupied (rotate s xs))) = mset (map the (filter occupied xs))"
    by (metis mset_map)
  then show ?thesis by (simp add: entries_of_def)
qed

lemma length_entries_of: "length (entries_of xs) = length (filter occupied xs)"
  by (simp add: entries_of_def)

lemma takeWhile_short:
  "length (filter P xs) < length xs \<Longrightarrow> length (takeWhile P xs) < length xs"
  by (induction xs) (auto split: if_splits)

lemma run_short:
  assumes "length (entries_of tbl) < length tbl"
  shows "length (run tbl s) < length tbl"
proof -
  have "size (mset (entries_of (rotate s tbl))) = size (mset (entries_of tbl))"
    by (simp only: mset_entries_of_rotate)
  then have "length (filter occupied (rotate s tbl)) = length (entries_of tbl)"
    by (simp add: length_entries_of)
  with assms have "length (filter occupied (rotate s tbl)) < length (rotate s tbl)" by simp
  from takeWhile_short [OF this] show ?thesis by (simp add: run_def)
qed



definition with_hash :: "u32 \<Rightarrow> entry list \<Rightarrow> entry list" where
  "with_hash h es = filter (\<lambda>e. fst e = h) es"

lemma with_hash_simps [simp]:
  "with_hash h [] = []"
  "with_hash h (e # es) = (if fst e = h then e # with_hash h es else with_hash h es)"
  "with_hash h (es @ es') = with_hash h es @ with_hash h es'"
  by (simp_all add: with_hash_def)

definition table_inv :: "slot list \<Rightarrow> entry list \<Rightarrow> bool" where
  "table_inv tbl es \<longleftrightarrow>
     mset (entries_of tbl) = mset es \<and>
     (\<forall>h. with_hash h (entries_of (run tbl (home (length tbl) h))) = with_hash h es)"

lemma with_hash_Nil_iff: "with_hash h (entries_of xs) = [] \<longleftrightarrow> (\<forall>p. Some (h, p) \<notin> set xs)"
proof (induction xs)
  case Nil
  then show ?case by simp
next
  case (Cons x xs)
  then show ?case by (cases x) auto
qed

lemma no_hash_after_run:
  assumes "table_inv tbl es"
  shows "with_hash h (entries_of (dropWhile occupied (rotate (home (length tbl) h) tbl))) = []"
proof -
  let ?R = "rotate (home (length tbl) h) tbl"
  have "?R = takeWhile occupied ?R @ dropWhile occupied ?R" by simp
  then have "entries_of ?R = entries_of (takeWhile occupied ?R) @ entries_of (dropWhile occupied ?R)"
    by (metis entries_of_simps(4))
  then have "mset (with_hash h (entries_of ?R)) =
      mset (with_hash h (entries_of (run tbl (home (length tbl) h)))) +
      mset (with_hash h (entries_of (dropWhile occupied ?R)))"
    by (simp add: run_def)
  moreover have "mset (with_hash h (entries_of ?R)) = mset (with_hash h es)"
  proof -
    have "mset (entries_of ?R) = mset es"
      using assms mset_entries_of_rotate [of "home (length tbl) h" tbl]
      by (simp add: table_inv_def)
    then have "filter_mset (\<lambda>e. fst e = h) (mset (entries_of ?R)) = filter_mset (\<lambda>e. fst e = h) (mset es)"
      by simp
    then show ?thesis by (simp only: with_hash_def mset_filter)
  qed
  moreover have "with_hash h (entries_of (run tbl (home (length tbl) h))) = with_hash h es"
    using assms by (simp add: table_inv_def)
  ultimately have "mset (with_hash h (entries_of (dropWhile occupied ?R))) = {#}" by simp
  then show ?thesis by simp
qed

lemma table_inv_empty: "table_inv (replicate n None) []"
proof -
  have "entries_of (replicate n None) = []" by (induction n) simp_all
  moreover have "run (replicate n None) s = []" for s
  proof -
    have "set (rotate s (replicate n None)) \<subseteq> {None}" by auto
    then have "\<forall>x \<in> set (rotate s (replicate n (None::slot))). \<not> occupied x" by auto
    then show ?thesis unfolding run_def
      by (cases "rotate s (replicate n (None::slot))") auto
  qed
  ultimately show ?thesis by (simp add: table_inv_def)
qed



lemma table_inv_length: "table_inv tbl es \<Longrightarrow> length (entries_of tbl) = length es"
  unfolding table_inv_def by (metis size_mset)

lemma after_run_subset:
  "set (takeWhile P (drop (Suc (length (takeWhile P xs))) xs)) \<subseteq> set (dropWhile P xs)"
proof -
  have "dropWhile P xs = drop (length (takeWhile P xs)) xs" by (simp add: dropWhile_eq_drop)
  moreover have "set (drop (Suc (length (takeWhile P xs))) xs) \<subseteq> set (drop (length (takeWhile P xs)) xs)"
    by (rule set_drop_subset_set_drop) simp
  moreover have "set (takeWhile P (drop (Suc (length (takeWhile P xs))) xs))
      \<subseteq> set (drop (Suc (length (takeWhile P xs))) xs)"
    using set_takeWhileD by fastforce
  ultimately show ?thesis by (simp only:; blast?)
qed

lemma no_hash_tail:
  assumes "table_inv tbl es"
  shows "with_hash h (entries_of (takeWhile occupied
           (drop (Suc (length (run tbl (home (length tbl) h)))) (rotate (home (length tbl) h) tbl)))) = []"
proof -
  let ?R = "rotate (home (length tbl) h) tbl"
  have "\<forall>p. Some (h, p) \<notin> set (dropWhile occupied ?R)"
    using no_hash_after_run [OF assms, of h] unfolding with_hash_Nil_iff .
  then have "\<forall>p. Some (h, p) \<notin> set (takeWhile occupied (drop (Suc (length (takeWhile occupied ?R))) ?R))"
    using after_run_subset [of occupied ?R] by blast
  then show ?thesis unfolding with_hash_Nil_iff run_def .
qed


lemma table_inv_place:
  assumes inv: "table_inv tbl es" and room: "length es < length tbl"
  shows "table_inv (place tbl e) (es @ [e])"
proof -
  let ?m = "length tbl"
  let ?s0 = "home ?m (fst e)"
  let ?l0 = "length (run tbl ?s0)"
  let ?j = "(?s0 + ?l0) mod ?m"
  have pos: "0 < ?m" using room by linarith
  have s0: "?s0 < ?m" using pos by (simp add: home_def)
  have cnt: "length (entries_of tbl) = length es"
    using inv by (rule table_inv_length)
  have l0: "?l0 < ?m" using run_short [of tbl ?s0] cnt room by simp
  have pl: "place tbl e = tbl[?j := Some e]"
    using probe_run [OF s0] l0 by (simp add: place_def)
  have j: "?j < ?m" using pos by simp
  have "\<not> occupied (rotate ?s0 tbl ! ?l0)"
    using l0 nth_length_takeWhile [of occupied "rotate ?s0 tbl"] by (simp add: run_def)
  then have free: "\<not> occupied (tbl ! ?j)"
    using l0 by (simp add: nth_rotate)
  have m1: "mset (entries_of (place tbl e)) = mset (es @ [e])"
    using mset_entries_of_update [OF j free, of e] inv by (simp add: pl table_inv_def)
  have m2: "with_hash h (entries_of (run (place tbl e) (home (length (place tbl e)) h)))
          = with_hash h (es @ [e])" for h
  proof -
    define m where "m = length tbl"
    define s where "s = home m h"
    define R where "R = rotate s tbl"
    define j where "j = (?s0 + ?l0) mod m"
    define j' where "j' = (j + m - s) mod m"
    define l where "l = length (takeWhile occupied R)"
    define T where "T = takeWhile occupied (drop (Suc l) R)"
    have mpos: "0 < m" using pos by (simp add: m_def)
    have s: "s < m" using mpos by (simp add: s_def home_def)
    have jm: "j < m" using mpos by (simp add: j_def)
    have j': "j' < m" using mpos by (simp add: j'_def)
    have lenR: "length R = m" by (simp add: R_def m_def)
    have wrap: "(s + j') mod m = j"
      unfolding j'_def using wrap_back [OF s jm] .
    have plj: "place tbl e = tbl[j := Some e]" using pl by (simp add: j_def m_def)
    have R': "rotate s (place tbl e) = R[j' := Some e]"
      using rotate_update [of s tbl j "Some e"] s jm
      by (simp add: plj R_def j'_def m_def)
    have "R ! j' = tbl ! ((s + j') mod m)"
      using j' by (simp add: R_def nth_rotate m_def)
    then have freeR: "\<not> occupied (R ! j')"
      using free wrap by (simp add: j_def m_def)
    have tw: "takeWhile occupied (R[j' := Some e]) =
       (if l = j' then takeWhile occupied R @ Some e # takeWhile occupied (drop (Suc j') R)
        else takeWhile occupied R)"
      using takeWhile_update [of j' R e] j' freeR lenR by (simp add: l_def)
    have old: "with_hash h (entries_of (takeWhile occupied R)) = with_hash h es"
      using inv by (simp add: table_inv_def run_def R_def s_def m_def)
    have tail: "with_hash h (entries_of T) = []"
      using no_hash_tail [OF inv, of h] by (simp add: T_def l_def R_def s_def m_def run_def)
    have runR: "run (place tbl e) (home (length (place tbl e)) h) = takeWhile occupied (R[j' := Some e])"
      using R' by (simp add: run_def s_def m_def)
    show ?thesis
    proof (cases "l = j'")
      case True
      have "with_hash h (entries_of (takeWhile occupied (R[j' := Some e])))
          = with_hash h (entries_of (takeWhile occupied R)) @ with_hash h [e] @ with_hash h (entries_of T)"
        unfolding tw using True by (simp add: T_def)
      then show ?thesis unfolding runR using old tail by simp
    next
      case False
      have ne: "fst e \<noteq> h"
      proof
        assume eq: "fst e = h"
        then have "s = ?s0" by (simp add: s_def m_def)
        then have "l = ?l0" by (simp add: l_def R_def run_def)
        moreover have "j' = ?l0"
          unfolding j'_def j_def \<open>s = ?s0\<close> m_def using wrap_home [OF s0 l0] .
        ultimately show False using False by simp
      qed
      have "with_hash h (entries_of (takeWhile occupied (R[j' := Some e])))
          = with_hash h (entries_of (takeWhile occupied R))"
        unfolding tw using False by simp
      then show ?thesis unfolding runR using old ne by simp
    qed
  qed
  show ?thesis using m1 m2 by (simp add: table_inv_def)
qed

lemma table_inv_foldl:
  "table_inv tbl es0 \<Longrightarrow> length es0 + length es \<le> length tbl \<Longrightarrow>
   table_inv (foldl place tbl es) (es0 @ es)"
proof (induction es arbitrary: tbl es0)
  case Nil
  then show ?case by simp
next
  case (Cons e es)
  have "table_inv (place tbl e) (es0 @ [e])"
    using table_inv_place [OF Cons.prems(1)] Cons.prems(2) by simp
  from Cons.IH [OF this] Cons.prems(2) show ?case by simp
qed

lemma table_inv_subtable: "table_inv (subtable es) es"
  using table_inv_foldl [OF table_inv_empty, of es "2 * length es"] by (simp add: subtable_def)

text \<open>Closed forms of the two passes of the builder.\<close>

fun entries :: "(byte list \<times> byte list) list \<Rightarrow> nat \<Rightarrow> entry list" where
  "entries [] pos = []"
| "entries (kv # rs) pos =
     (checksum (fst kv), pos) # entries rs (pos + 8 + length (fst kv) + length (snd kv))"

definition bucket :: "nat \<Rightarrow> entry list \<Rightarrow> entry list" where
  "bucket b es = filter (\<lambda>e. unat (fst e) mod 256 = b) es"

definition record_region :: "(byte list \<times> byte list) list \<Rightarrow> byte list" where
  "record_region recs = concat (map record_bytes recs)"

definition table_bytes :: "entry list \<Rightarrow> byte list" where
  "table_bytes es = concat (map slot_bytes (subtable es))"

fun table_positions :: "nat \<Rightarrow> entry list list \<Rightarrow> (nat \<times> nat) list" where
  "table_positions pos [] = []"
| "table_positions pos (es # bs) = (pos, 2 * length es) # table_positions (pos + 16 * length es) bs"

definition header_bytes :: "(nat \<times> nat) list \<Rightarrow> byte list" where
  "header_bytes hdr = concat (map (\<lambda>(p, n). putNums (of_nat p) (of_nat n)) hdr)"

lemma length_PutUint32 [simp]: "length (PutUint32 v) = 4"
  by (simp add: PutUint32_def)

lemma length_putNums [simp]: "length (putNums a b) = 8"
  by (simp add: putNums_def)

lemma length_record_bytes [simp]:
  "length (record_bytes kv) = 8 + length (fst kv) + length (snd kv)"
  by (simp add: record_bytes_def)

lemma length_slot_bytes [simp]: "length (slot_bytes x) = 8"
  by (simp add: slot_bytes_def split: option.splits prod.splits)

lemma length_concat_fixed:
  "(\<And>x. x \<in> set xs \<Longrightarrow> length (f x) = c) \<Longrightarrow> length (concat (map f xs)) = c * length xs"
  by (induction xs) simp_all

lemma length_table_bytes [simp]: "length (table_bytes es) = 16 * length es"
  by (simp add: table_bytes_def length_concat_fixed [where c = 8])

lemma length_header_bytes [simp]: "length (header_bytes hdr) = 8 * length hdr"
  unfolding header_bytes_def by (rule length_concat_fixed) auto

lemma length_record_region:
  "length (record_region recs) = (\<Sum>kv\<leftarrow>recs. 8 + length (fst kv) + length (snd kv))"
  by (induction recs) (simp_all add: record_region_def)

lemma bucket_simps [simp]:
  "bucket b [] = []"
  "bucket b (e # es) = (if unat (fst e) mod 256 = b then e # bucket b es else bucket b es)"
  by (simp_all add: bucket_def)

lemma foldl_write_record:
  "length bks = 256 \<Longrightarrow>
   foldl write_record (out, bks, pos) recs =
     (out @ record_region recs,
      map (\<lambda>b. bks ! b @ bucket b (entries recs pos)) [0..<256],
      pos + length (record_region recs))"
proof (induction recs arbitrary: out bks pos)
  case Nil
  then show ?case by (simp add: record_region_def map_nth [symmetric] del: map_nth)
      (metis map_nth)
next
  case (Cons kv rs)
  let ?h = "checksum (fst kv)"
  let ?b = "unat ?h mod 256"
  let ?bks = "bks[?b := bks ! ?b @ [(?h, pos)]]"
  let ?pos = "pos + 8 + length (fst kv) + length (snd kv)"
  have b: "?b < 256" by simp
  have step: "write_record (out, bks, pos) kv = (out @ record_bytes kv, ?bks, ?pos)"
    by (simp add: write_record_def Let_def)
  have len: "length ?bks = 256" using Cons.prems by simp
  have bk: "?bks ! b' @ bucket b' (entries rs ?pos) = bks ! b' @ bucket b' (entries (kv # rs) pos)"
    if "b' < 256" for b'
    using that Cons.prems by (cases "b' = ?b") (simp_all del: upt_Suc)
  have "map (\<lambda>b. ?bks ! b @ bucket b (entries rs ?pos)) [0..<256]
      = map (\<lambda>b. bks ! b @ bucket b (entries (kv # rs) pos)) [0..<256]"
    by (rule map_cong [OF refl]) (use bk in simp)
  then show ?case
    using Cons.IH [OF len, of "out @ record_bytes kv" ?pos]
    by (simp add: step record_region_def del: upt_Suc)
qed

lemma foldl_write_table:
  "foldl write_table (out, hdr, pos) bs =
     (out @ concat (map table_bytes bs), hdr @ table_positions pos bs,
      pos + 16 * (\<Sum>es\<leftarrow>bs. length es))"
proof (induction bs arbitrary: out hdr pos)
  case Nil
  then show ?case by simp
next
  case (Cons es bs)
  have "write_table (out, hdr, pos) es =
      (out @ table_bytes es, hdr @ [(pos, 2 * length es)], pos + 16 * length es)"
    by (simp add: write_table_def Let_def table_bytes_def)
  then show ?case using Cons.IH by simp
qed

definition buckets_of :: "(byte list \<times> byte list) list \<Rightarrow> entry list list" where
  "buckets_of recs = map (\<lambda>b. bucket b (entries recs 2048)) [0..<256]"

lemma Make_records_layout:
  "Make_records recs =
     header_bytes (table_positions (2048 + length (record_region recs)) (buckets_of recs))
     @ record_region recs @ concat (map table_bytes (buckets_of recs))"
proof -
  have "foldl write_record ([], replicate 256 [], 2048) recs =
      (record_region recs, buckets_of recs, 2048 + length (record_region recs))"
    using foldl_write_record [of "replicate 256 []" "[]" 2048 recs]
    by (simp add: buckets_of_def del: upt_Suc)
  then show ?thesis
    by (simp add: Make_records_def foldl_write_table header_bytes_def)
qed

definition holds_at :: "byte list \<Rightarrow> nat \<Rightarrow> byte list \<Rightarrow> bool" where
  "holds_at s off x \<longleftrightarrow> (\<exists>pre post. s = pre @ x @ post \<and> length pre = off)"

lemma holds_at_here: "holds_at (x @ post) 0 x"
  unfolding holds_at_def by (rule exI [of _ "[]"]) simp

lemma holds_at_prepend: "holds_at s off x \<Longrightarrow> holds_at (pre @ s) (length pre + off) x"
  unfolding holds_at_def by (metis append.assoc length_append)

lemma holds_at_append: "holds_at s off x \<Longrightarrow> holds_at (s @ post) off x"
  unfolding holds_at_def by (metis append.assoc)

lemma holds_at_take_drop: "holds_at s off x \<Longrightarrow> take (length x) (drop off s) = x"
  unfolding holds_at_def by auto

lemma holds_at_length: "holds_at s off x \<Longrightarrow> off + length x \<le> length s"
  unfolding holds_at_def by auto

lemma holds_at_sub:
  "holds_at s off (a @ b @ c) \<Longrightarrow> holds_at s (off + length a) b"
  unfolding holds_at_def
  by (metis append.assoc length_append)

lemma holds_at_concat:
  assumes "i < length xs"
  shows "holds_at (concat (map f xs)) (length (concat (map f (take i xs)))) (f (xs ! i))"
proof -
  have "xs = take i xs @ xs ! i # drop (Suc i) xs"
    using assms by (simp add: id_take_nth_drop)
  then have "concat (map f xs) =
      concat (map f (take i xs)) @ f (xs ! i) @ concat (map f (drop (Suc i) xs))"
    by (metis concat.simps(2) concat_append list.simps(9) map_append)
  then show ?thesis unfolding holds_at_def by blast
qed

lemma Uint32_PutUint32: "Uint32 (PutUint32 v @ rest) = v"
proof -
  have "(ucast (ucast v :: byte) :: u32) OR push_bit 8 (ucast (ucast (drop_bit 8 v) :: byte))
        OR push_bit 16 (ucast (ucast (drop_bit 16 v) :: byte))
        OR push_bit 24 (ucast (ucast (drop_bit 24 v) :: byte)) = v"
  proof (rule bit_word_eqI)
    fix n assume n: "n < LENGTH(32)"
    consider "n < 8" | "8 \<le> n" "n < 16" | "16 \<le> n" "n < 24" | "24 \<le> n" by linarith
    then show "bit ((ucast (ucast v :: byte) :: u32) OR push_bit 8 (ucast (ucast (drop_bit 8 v) :: byte))
        OR push_bit 16 (ucast (ucast (drop_bit 16 v) :: byte))
        OR push_bit 24 (ucast (ucast (drop_bit 24 v) :: byte))) n = bit v n"
      using n by cases (auto simp add: bit_simps)
  qed
  then show ?thesis by (simp add: PutUint32_def)
qed

lemma bytesReader_inside:
  assumes "off + n \<le> length s" "off < length s"
  shows "fst (bytesReader eager s n off) = take n (drop off s)"
    and "length (fst (bytesReader eager s n off)) = n"
    and "snd (bytesReader eager s n off) = (if eager \<and> off + n = length s then Some EOF else None)"
  using assms by (simp_all add: bytesReader_def Let_def)

lemma bytesReader_holds:
  assumes "holds_at s off x" "off < length s"
  shows "bytesReader eager s (length x) off =
     (x, if eager \<and> off + length x = length s then Some EOF else None)"
  using bytesReader_inside [OF holds_at_length [OF assms(1)] assms(2), of eager]
    holds_at_take_drop [OF assms(1)]
  by (simp add: prod_eq_iff)

lemma readNums_holds:
  assumes "holds_at s (unat pos) (putNums a b)"
  shows "readNums (bytesReader eager s) pos = Inr (a, b)"
proof -
  have len: "unat pos + 8 \<le> length s" using holds_at_length [OF assms] by simp
  then have lt: "unat pos < length s" by simp
  have rd: "bytesReader eager s 8 (unat pos) =
     (putNums a b, if eager \<and> unat pos + 8 = length s then Some EOF else None)"
    using bytesReader_holds [OF assms lt, of eager] by simp
  have "Uint32 (take 4 (putNums a b)) = a"
    using Uint32_PutUint32 [of a "[]"] by (simp add: putNums_def)
  moreover have "Uint32 (take 4 (drop 4 (putNums a b))) = b"
    using Uint32_PutUint32 [of b "[]"] by (simp add: putNums_def)
  ultimately show ?thesis
    by (simp add: readNums_def rd)
qed

lemma holds_at_trans:
  "holds_at s off x \<Longrightarrow> holds_at x off' y \<Longrightarrow> holds_at s (off + off') y"
  unfolding holds_at_def
  by (metis append.assoc length_append)

fun rec_at :: "(byte list \<times> byte list) list \<Rightarrow> nat \<Rightarrow> nat \<Rightarrow> (byte list \<times> byte list) option" where
  "rec_at [] c p = None"
| "rec_at (kv # rs) c p =
     (if p = c then Some kv else rec_at rs (c + 8 + length (fst kv) + length (snd kv)) p)"

lemma entries_pos_ge: "e \<in> set (entries recs c) \<Longrightarrow> c \<le> snd e"
  by (induction recs arbitrary: c) fastforce+

lemma length_entries [simp]: "length (entries recs c) = length recs"
  by (induction recs arbitrary: c) simp_all

lemma rec_at_entries:
  "e \<in> set (entries recs c) \<Longrightarrow>
   \<exists>kv. rec_at recs c (snd e) = Some kv \<and> fst e = checksum (fst kv)"
proof (induction recs arbitrary: c)
  case Nil
  then show ?case by simp
next
  case (Cons kv rs)
  let ?c' = "c + 8 + length (fst kv) + length (snd kv)"
  show ?case
  proof (cases "e = (checksum (fst kv), c)")
    case True
    then show ?thesis by simp
  next
    case False
    then have e: "e \<in> set (entries rs ?c')" using Cons.prems by simp
    then have "?c' \<le> snd e" by (rule entries_pos_ge)
    then have "snd e \<noteq> c" by simp
    then show ?thesis using Cons.IH [OF e] by simp
  qed
qed

lemma rec_at_holds:
  "rec_at recs c p = Some kv \<Longrightarrow>
   c \<le> p \<and> holds_at (record_region recs) (p - c) (record_bytes kv)"
proof (induction recs arbitrary: c)
  case Nil
  then show ?case by simp
next
  case (Cons kv' rs)
  let ?c' = "c + 8 + length (fst kv') + length (snd kv')"
  show ?case
  proof (cases "p = c")
    case True
    then have "kv = kv'" using Cons.prems by simp
    then show ?thesis using True holds_at_here [of "record_bytes kv" "record_region rs"]
      by (simp add: record_region_def)
  next
    case False
    then have "rec_at rs ?c' p = Some kv" using Cons.prems by simp
    from Cons.IH [OF this] have le: "?c' \<le> p"
      and h: "holds_at (record_region rs) (p - ?c') (record_bytes kv)" by simp_all
    have "holds_at (record_bytes kv' @ record_region rs) (length (record_bytes kv') + (p - ?c')) (record_bytes kv)"
      using h by (rule holds_at_prepend)
    moreover have "length (record_bytes kv') + (p - ?c') = p - c" using le by simp
    ultimately show ?thesis using le by (simp add: record_region_def)
  qed
qed

lemma rec_at_filter:
  "map (\<lambda>e. snd (the (rec_at recs c (snd e))))
       (filter (\<lambda>e. fst (the (rec_at recs c (snd e))) = k) (entries recs c))
   = map snd (filter (\<lambda>kv. fst kv = k) recs)"
proof (induction recs arbitrary: c)
  case Nil
  then show ?case by simp
next
  case (Cons kv rs)
  let ?c' = "c + 8 + length (fst kv) + length (snd kv)"
  define P where "P = (\<lambda>e::entry. fst (the (rec_at (kv # rs) c (snd e))) = k)"
  define g where "g = (\<lambda>e::entry. snd (the (rec_at (kv # rs) c (snd e))))"
  define P' where "P' = (\<lambda>e::entry. fst (the (rec_at rs ?c' (snd e))) = k)"
  define g' where "g' = (\<lambda>e::entry. snd (the (rec_at rs ?c' (snd e))))"
  have same: "rec_at (kv # rs) c (snd e) = rec_at rs ?c' (snd e)" if "e \<in> set (entries rs ?c')" for e
    using entries_pos_ge [OF that] by simp
  have P0: "P (checksum (fst kv), c) \<longleftrightarrow> fst kv = k" by (simp add: P_def)
  have g0: "g (checksum (fst kv), c) = snd kv" by (simp add: g_def)
  have f: "filter P (entries rs ?c') = filter P' (entries rs ?c')"
    unfolding P_def P'_def by (rule filter_cong [OF refl]) (simp only: same)
  have m: "map g (filter P' (entries rs ?c')) = map g' (filter P' (entries rs ?c'))"
  proof (rule map_cong [OF refl])
    fix e assume "e \<in> set (filter P' (entries rs ?c'))"
    then have "e \<in> set (entries rs ?c')" by simp
    then show "g e = g' e" unfolding g_def g'_def by (simp only: same)
  qed
  have IH: "map g' (filter P' (entries rs ?c')) = map snd (filter (\<lambda>kv. fst kv = k) rs)"
    unfolding g'_def P'_def by (rule Cons.IH)
  have "map g (filter P (entries (kv # rs) c)) =
      (if fst kv = k then [snd kv] else []) @ map g (filter P (entries rs ?c'))"
    using P0 g0 by auto
  also have "\<dots> = (if fst kv = k then [snd kv] else []) @ map snd (filter (\<lambda>kv. fst kv = k) rs)"
    by (simp only: f m IH)
  also have "\<dots> = map snd (filter (\<lambda>kv. fst kv = k) (kv # rs))" by simp
  finally show ?case unfolding g_def P_def .
qed

lemma table_positions_length [simp]: "length (table_positions pos bs) = length bs"
  by (induction bs arbitrary: pos) simp_all

lemma table_positions_nth:
  "i < length bs \<Longrightarrow>
   table_positions pos bs ! i = (pos + 16 * (\<Sum>es\<leftarrow>take i bs. length es), 2 * length (bs ! i))"
proof (induction bs arbitrary: pos i)
  case Nil
  then show ?case by simp
next
  case (Cons es bs)
  then show ?case by (cases i) simp_all
qed

lemma length_concat_table_bytes:
  "length (concat (map table_bytes bs)) = 16 * (\<Sum>es\<leftarrow>bs. length es)"
  by (induction bs) simp_all

lemma sum_bucket_lengths:
  "(\<Sum>b\<leftarrow>[0..<n]. length (bucket b es)) = length (filter (\<lambda>e. unat (fst e) mod 256 < n) es)"
proof (induction n)
  case 0
  then show ?case by simp
next
  case (Suc n)
  have "length (filter (\<lambda>e. unat (fst e) mod 256 < Suc n) es) =
      length (filter (\<lambda>e. unat (fst e) mod 256 < n) es) + length (bucket n es)"
    by (induction es) (auto simp add: less_Suc_eq)
  with Suc show ?case by simp
qed

lemma length_buckets_of [simp]: "length (buckets_of recs) = 256"
  by (simp add: buckets_of_def)

lemma sum_buckets_of: "(\<Sum>es\<leftarrow>buckets_of recs. length es) = length recs"
proof -
  have "(\<Sum>es\<leftarrow>buckets_of recs. length es) = (\<Sum>b\<leftarrow>[0..<256]. length (bucket b (entries recs 2048)))"
    by (simp add: buckets_of_def comp_def del: upt_Suc)
  also have "\<dots> = length (filter (\<lambda>e. unat (fst e) mod 256 < 256) (entries recs 2048))"
    by (rule sum_bucket_lengths)
  finally show ?thesis by simp
qed

lemma length_Make_records:
  "length (Make_records recs) = 2048 + length (record_region recs) + 16 * length recs"
  by (simp add: Make_records_layout length_concat_table_bytes sum_buckets_of)

definition table_pos :: "(byte list \<times> byte list) list \<Rightarrow> nat \<Rightarrow> nat" where
  "table_pos recs b =
     2048 + length (record_region recs) + 16 * (\<Sum>es\<leftarrow>take b (buckets_of recs). length es)"

lemma nth_buckets_of: "b < 256 \<Longrightarrow> buckets_of recs ! b = bucket b (entries recs 2048)"
  by (simp add: buckets_of_def del: upt_Suc)

lemma header_entry_holds:
  assumes "b < 256"
  shows "holds_at (Make_records recs) (8 * b)
     (putNums (of_nat (table_pos recs b)) (of_nat (2 * length (bucket b (entries recs 2048)))))"
proof -
  let ?tp = "table_positions (2048 + length (record_region recs)) (buckets_of recs)"
  let ?g = "\<lambda>(p, n). putNums (of_nat p) (of_nat n) :: byte list"
  have b: "b < length ?tp" using assms by simp
  have "holds_at (header_bytes ?tp) (length (concat (map ?g (take b ?tp)))) (?g (?tp ! b))"
    unfolding header_bytes_def using b by (rule holds_at_concat)
  moreover have "length (concat (map ?g (take b ?tp))) = 8 * b"
    using b by (subst length_concat_fixed [where c = 8]) auto
  moreover have "?tp ! b = (table_pos recs b, 2 * length (bucket b (entries recs 2048)))"
    using assms by (simp add: table_positions_nth table_pos_def nth_buckets_of)
  ultimately have "holds_at (header_bytes ?tp) (8 * b)
     (putNums (of_nat (table_pos recs b)) (of_nat (2 * length (bucket b (entries recs 2048)))))"
    by simp
  then show ?thesis
    unfolding Make_records_layout by (rule holds_at_append)
qed

lemma slot_holds:
  assumes "b < 256" "i < 2 * length (bucket b (entries recs 2048))"
  shows "holds_at (Make_records recs) (table_pos recs b + 8 * i)
     (slot_bytes (subtable (bucket b (entries recs 2048)) ! i))"
proof -
  let ?bks = "buckets_of recs"
  let ?es = "bucket b (entries recs 2048)"
  let ?t = "subtable ?es"
  have b: "b < length ?bks" using assms by simp
  have i: "i < length ?t" using assms by simp
  have "holds_at (table_bytes ?es) (length (concat (map slot_bytes (take i ?t)))) (slot_bytes (?t ! i))"
    unfolding table_bytes_def using i by (rule holds_at_concat)
  moreover have "length (concat (map slot_bytes (take i ?t))) = 8 * i"
    using i by (subst length_concat_fixed [where c = 8]) auto
  ultimately have a: "holds_at (table_bytes ?es) (8 * i) (slot_bytes (?t ! i))" by simp
  have "holds_at (concat (map table_bytes ?bks)) (length (concat (map table_bytes (take b ?bks))))
      (table_bytes (?bks ! b))"
    using b by (rule holds_at_concat)
  then have "holds_at (concat (map table_bytes ?bks)) (16 * (\<Sum>es\<leftarrow>take b ?bks. length es))
      (table_bytes ?es)"
    using assms by (simp add: length_concat_table_bytes nth_buckets_of)
  from holds_at_trans [OF this a]
  have "holds_at (concat (map table_bytes ?bks)) (16 * (\<Sum>es\<leftarrow>take b ?bks. length es) + 8 * i)
      (slot_bytes (?t ! i))" .
  then have "holds_at (record_region recs @ concat (map table_bytes ?bks))
      (length (record_region recs) + (16 * (\<Sum>es\<leftarrow>take b ?bks. length es) + 8 * i))
      (slot_bytes (?t ! i))"
    by (rule holds_at_prepend)
  then have "holds_at (header_bytes (table_positions (2048 + length (record_region recs)) ?bks)
       @ record_region recs @ concat (map table_bytes ?bks))
      (length (header_bytes (table_positions (2048 + length (record_region recs)) ?bks)) +
        (length (record_region recs) + (16 * (\<Sum>es\<leftarrow>take b ?bks. length es) + 8 * i)))
      (slot_bytes (?t ! i))"
    by (rule holds_at_prepend)
  then show ?thesis
    by (simp add: Make_records_layout table_pos_def add.assoc)
qed

lemma record_holds:
  assumes "rec_at recs 2048 p = Some kv"
  shows "holds_at (Make_records recs) p (record_bytes kv)"
    and "2048 \<le> p"
    and "p + length (record_bytes kv) \<le> 2048 + length (record_region recs)"
proof -
  from rec_at_holds [OF assms] have le: "2048 \<le> p"
    and h: "holds_at (record_region recs) (p - 2048) (record_bytes kv)" by simp_all
  show "2048 \<le> p" by fact
  from holds_at_length [OF h] le
  show "p + length (record_bytes kv) \<le> 2048 + length (record_region recs)" by simp
  have "holds_at (record_region recs @ concat (map table_bytes (buckets_of recs))) (p - 2048) (record_bytes kv)"
    using h by (rule holds_at_append)
  then have "holds_at (header_bytes (table_positions (2048 + length (record_region recs)) (buckets_of recs))
       @ record_region recs @ concat (map table_bytes (buckets_of recs)))
      (length (header_bytes (table_positions (2048 + length (record_region recs)) (buckets_of recs))) + (p - 2048))
      (record_bytes kv)"
    by (rule holds_at_prepend)
  then show "holds_at (Make_records recs) p (record_bytes kv)"
    using le by (simp add: Make_records_layout)
qed

lemma unat_of_nat_u32: "n < 2 ^ 32 \<Longrightarrow> unat (of_nat n :: u32) = n"
  by (simp add: unat_of_nat)

lemma of_nat_eq_u32:
  "a < 2 ^ 32 \<Longrightarrow> b < 2 ^ 32 \<Longrightarrow> (of_nat a :: u32) = of_nat b \<longleftrightarrow> a = b"
  by (metis unat_of_nat_u32)

lemma of_nat_le_u32:
  "a < 2 ^ 32 \<Longrightarrow> b < 2 ^ 32 \<Longrightarrow> (of_nat a :: u32) \<le> of_nat b \<longleftrightarrow> a \<le> b"
  by (simp add: word_le_nat_alt unat_of_nat_u32)

lemma holds_at_chunk:
  assumes "holds_at s off x" "n + l \<le> length x"
  shows "holds_at s (off + n) (take l (drop n x))"
proof -
  have "x = take n x @ take l (drop n x) @ drop (n + l) x"
    by (metis append_take_drop_id drop_drop add.commute)
  then have "holds_at s off (take n x @ take l (drop n x) @ drop (n + l) x)"
    using assms(1) by simp
  from holds_at_sub [OF this] assms(2) show ?thesis by simp
qed

lemma match_from_holds:
  assumes h: "holds_at s off k'" and len: "length k = length k'"
    and inside: "off + length k' < length s" and small: "length s < 2 ^ 32"
  shows "n \<le> length k \<Longrightarrow> unat pos = off + n \<Longrightarrow>
     match_from (bytesReader eager s) k n pos = Inr (drop n k = drop n k')"
proof (induction "length k - n" arbitrary: n pos rule: less_induct)
  case less
  show ?case
  proof (cases "n < length k")
    case False
    then show ?thesis using less.prems len by (subst match_from.simps) simp
  next
    case True
    define blen where "blen = (if 64 > length k - n then length k - n else 64)"
    have blen: "0 < blen" "n + blen \<le> length k" using True by (auto simp add: blen_def)
    have ch: "holds_at s (off + n) (take blen (drop n k'))"
      using holds_at_chunk [OF h, of n blen] blen len by simp
    have lch: "length (take blen (drop n k')) = blen" using blen len by simp
    have "bytesReader eager s (length (take blen (drop n k'))) (off + n) =
        (take blen (drop n k'),
         if eager \<and> off + n + length (take blen (drop n k')) = length s then Some EOF else None)"
      using ch inside True len by (intro bytesReader_holds) simp_all
    then have rd: "bytesReader eager s blen (unat pos) = (take blen (drop n k'), None)"
      using lch blen inside len less.prems by simp
    have split: "drop n k = drop n k' \<longleftrightarrow>
        take blen (drop n k) = take blen (drop n k') \<and> drop (n + blen) k = drop (n + blen) k'"
      by (metis append_take_drop_id drop_drop add.commute)
    show ?thesis
    proof (cases "take blen (drop n k') = take blen (drop n k)")
      case F: False
      have "match_from (bytesReader eager s) k n pos = Inr False"
        using True F rd by (subst match_from.simps) (simp add: blen_def [symmetric] Let_def)
      then show ?thesis using F split by auto
    next
      case T: True
      have "off + n + blen < 2 ^ 32" using blen inside small len by linarith
      then have up: "unat (pos + of_nat blen) = off + (n + blen)"
        using less.prems by (simp add: unat_word_ariths unat_of_nat_u32)
      have "match_from (bytesReader eager s) k n pos =
          match_from (bytesReader eager s) k (n + blen) (pos + of_nat blen)"
        using True T rd by (subst match_from.simps) (simp add: blen_def [symmetric] Let_def)
      also have "\<dots> = Inr (drop (n + blen) k = drop (n + blen) k')"
        using blen True up by (intro less.hyps) simp_all
      finally show ?thesis using T split by auto
    qed
  qed
qed

lemma match_holds:
  assumes "holds_at s (unat pos) k'" "length k = length k'"
    and "unat pos + length k' < length s" "length s < 2 ^ 32"
  shows "match (bytesReader eager s) k pos = Inr (k = k')"
  using match_from_holds [OF assms, of 0 pos eager] by (simp add: match_def)

section \<open>Lookups in a built database\<close>

definition key_bucket :: "(byte list \<times> byte list) list \<Rightarrow> byte list \<Rightarrow> entry list" where
  "key_bucket recs k = bucket (unat (checksum k) mod 256) (entries recs 2048)"

definition key_slots :: "(byte list \<times> byte list) list \<Rightarrow> byte list \<Rightarrow> slot list" where
  "key_slots recs k =
     rotate (home (2 * length (key_bucket recs k)) (checksum k)) (subtable (key_bucket recs k))"

definition key_table_pos :: "(byte list \<times> byte list) list \<Rightarrow> byte list \<Rightarrow> nat" where
  "key_table_pos recs k = table_pos recs (unat (checksum k) mod 256)"

definition is_match :: "(byte list \<times> byte list) list \<Rightarrow> byte list \<Rightarrow> entry \<Rightarrow> bool" where
  "is_match recs k e \<longleftrightarrow> fst e = checksum k \<and> fst (the (rec_at recs 2048 (snd e))) = k"

definition value_of :: "(byte list \<times> byte list) list \<Rightarrow> entry \<Rightarrow> byte list" where
  "value_of recs e = snd (the (rec_at recs 2048 (snd e)))"

definition slot_index :: "(byte list \<times> byte list) list \<Rightarrow> byte list \<Rightarrow> nat \<Rightarrow> nat" where
  "slot_index recs k c =
     (home (2 * length (key_bucket recs k)) (checksum k) + c) mod (2 * length (key_bucket recs k))"

definition scanning ::
  "(byte list \<times> byte list) list \<Rightarrow> bool \<Rightarrow> byte list \<Rightarrow> nat \<Rightarrow> CdbIterator \<Rightarrow> bool" where
  "scanning recs eager k c iter \<longleftrightarrow>
     db iter = bytesReader eager (Make_records recs) \<and> key iter = k \<and>
     khash iter = checksum k \<and> initErr iter = None \<and>
     hpos iter = of_nat (key_table_pos recs k) \<and>
     hslots iter = of_nat (2 * length (key_bucket recs k)) \<and>
     loop iter = of_nat c \<and> c \<le> 2 * length (key_bucket recs k) \<and>
     0 < length (key_bucket recs k) \<and>
     kpos iter = of_nat (key_table_pos recs k + 8 * slot_index recs k c)"

lemma length_key_slots [simp]: "length (key_slots recs k) = 2 * length (key_bucket recs k)"
  by (simp add: key_slots_def)

lemma key_slots_nth:
  "c < 2 * length (key_bucket recs k) \<Longrightarrow>
   key_slots recs k ! c = subtable (key_bucket recs k) ! slot_index recs k c"
  by (simp add: key_slots_def slot_index_def nth_rotate)

lemma slot_index_less:
  "0 < length (key_bucket recs k) \<Longrightarrow> slot_index recs k c < 2 * length (key_bucket recs k)"
  by (simp add: slot_index_def)

lemma slot_index_Suc:
  "slot_index recs k (Suc c) =
     (if Suc (slot_index recs k c) = 2 * length (key_bucket recs k) then 0
      else Suc (slot_index recs k c))"
  by (simp add: slot_index_def mod_Suc)

lemma key_bucket_subset: "set (key_bucket recs k) \<subseteq> set (entries recs 2048)"
  by (auto simp add: key_bucket_def bucket_def)

lemma length_key_bucket_le: "length (key_bucket recs k) \<le> length recs"
proof -
  have "length (key_bucket recs k) \<le> length (entries recs 2048)"
    unfolding key_bucket_def bucket_def by (rule length_filter_le)
  then show ?thesis by simp
qed

lemma key_slot_holds:
  assumes "i < 2 * length (key_bucket recs k)"
  shows "holds_at (Make_records recs) (key_table_pos recs k + 8 * i)
     (slot_bytes (subtable (key_bucket recs k) ! i))"
  using slot_holds [of "unat (checksum k) mod 256" i recs] assms
  by (simp add: key_bucket_def key_table_pos_def)

lemma key_table_end:
  assumes "0 < length (key_bucket recs k)"
  shows "key_table_pos recs k + 16 * length (key_bucket recs k) \<le> length (Make_records recs)"
proof -
  have "2 * length (key_bucket recs k) - 1 < 2 * length (key_bucket recs k)" using assms by simp
  from holds_at_length [OF key_slot_holds [OF this]] assms show ?thesis by simp
qed

lemma unat_bucket_offset: "unat (h mod 256 * 8 :: u32) = 8 * (unat h mod 256)"
proof -
  have "unat (h mod 256) = unat h mod 256" by (simp add: unat_mod)
  moreover have "unat h mod 256 < 256" by simp
  ultimately show ?thesis by (simp add: unat_word_ariths)
qed

lemma Iterate_built:
  assumes small: "length (Make_records recs) < 2 ^ 32"
  shows "if key_bucket recs k = []
         then initErr (Iterate (bytesReader eager (Make_records recs)) k) = Some EOF
         else scanning recs eager k 0 (Iterate (bytesReader eager (Make_records recs)) k)"
proof -
  let ?F = "Make_records recs"
  let ?h = "checksum k"
  let ?b = "unat ?h mod 256"
  let ?m = "2 * length (key_bucket recs k)"
  have b: "?b < 256" by simp
  have "holds_at ?F (unat (?h mod 256 * 8)) (putNums (of_nat (key_table_pos recs k)) (of_nat ?m))"
    using header_entry_holds [OF b, of recs]
    by (simp add: unat_bucket_offset key_bucket_def key_table_pos_def)
  then have rd: "readNums (bytesReader eager ?F) (?h mod 256 * 8) =
      Inr (of_nat (key_table_pos recs k), of_nat ?m)"
    by (rule readNums_holds)
  have m: "?m < 2 ^ 32"
    using length_key_bucket_le [of recs k] small by (simp add: length_Make_records)
  have zero: "(of_nat ?m :: u32) = 0 \<longleftrightarrow> key_bucket recs k = []"
    using of_nat_eq_u32 [OF m, of 0] by simp
  show ?thesis
  proof (cases "key_bucket recs k = []")
    case True
    then show ?thesis using rd by (simp add: Iterate_def Let_def)
  next
    case False
    have mpos: "0 < ?m" using False by simp
    have u1: "unat (?h div 256 mod of_nat ?m) = home ?m ?h"
      using m by (simp add: unat_mod home_def unat_of_nat_u32 del: of_nat_mult)
    have "home ?m ?h < ?m" unfolding home_def using mpos by (rule mod_less_divisor)
    then have "home ?m ?h < 2 ^ 32" using m by linarith
    then have u2: "unat (of_nat (home ?m ?h) :: u32) = home ?m ?h" by (rule unat_of_nat_u32)
    have "unat (?h div 256 mod of_nat ?m) = unat (of_nat (home ?m ?h) :: u32)"
      using u1 u2 by (simp only:)
    then have hs: "?h div 256 mod of_nat ?m = of_nat (home ?m ?h)"
      by (simp only: word_unat_eq_iff)
    have idx: "slot_index recs k 0 = home ?m ?h"
      using False by (simp add: slot_index_def home_def)
    have kp: "(of_nat (key_table_pos recs k) :: u32) + of_nat (home ?m ?h) * 8 =
        of_nat (key_table_pos recs k + 8 * home ?m ?h)"
      by simp
    show ?thesis
      using False rd zero hs idx kp
      by (simp add: Iterate_def Let_def scanning_def del: of_nat_mult of_nat_add)
  qed
qed

definition advanced ::
  "(byte list \<times> byte list) list \<Rightarrow> byte list \<Rightarrow> nat \<Rightarrow> CdbIterator \<Rightarrow> CdbIterator" where
  "advanced recs k c iter =
     iter\<lparr>loop := of_nat (Suc c),
          kpos := of_nat (key_table_pos recs k + 8 * slot_index recs k (Suc c))\<rparr>"

lemma holds_at_prefix: "holds_at s off (x @ y) \<Longrightarrow> holds_at s off x"
  unfolding holds_at_def by (metis append.assoc)

lemma scanning_advanced:
  assumes "scanning recs eager k c iter" "c < 2 * length (key_bucket recs k)"
  shows "scanning recs eager k (Suc c) (advanced recs k c iter)"
  using assms by (simp add: scanning_def advanced_def)

lemma scanning_result:
  assumes "scanning recs eager k c iter"
  shows "scanning recs eager k c (iter\<lparr>dpos := a, dlen := b\<rparr>)"
  using assms by (simp add: scanning_def)

lemma advance_step:
  assumes small: "length (Make_records recs) < 2 ^ 32"
    and sc: "scanning recs eager k c iter"
    and lt: "c < 2 * length (key_bucket recs k)"
  shows "advance iter = advanced recs k c iter"
proof -
  define m where "m = 2 * length (key_bucket recs k)"
  define tp where "tp = key_table_pos recs k"
  define idx where "idx = slot_index recs k c"
  have pos: "0 < length (key_bucket recs k)" using sc by (simp add: scanning_def)
  have idx: "idx < m" unfolding idx_def m_def using pos by (rule slot_index_less)
  have fin: "tp + 8 * m \<le> length (Make_records recs)"
    using key_table_end [OF pos] by (simp add: tp_def m_def)
  have f: "hpos iter = of_nat tp" "hslots iter = of_nat m" "loop iter = of_nat c"
    "kpos iter = of_nat (tp + 8 * idx)"
    using sc by (simp_all add: scanning_def tp_def m_def idx_def)
  have a: "tp + 8 * idx + 8 < 2 ^ 32" "tp + 8 * m < 2 ^ 32" using fin idx small by simp_all
  have k8: "kpos iter + 8 = of_nat (tp + 8 * idx + 8)" by (simp add: f)
  have he: "hpos iter + hslots iter * 8 = of_nat (tp + 8 * m)" by (simp add: f)
  have wrap: "kpos iter + 8 = hpos iter + hslots iter * 8 \<longleftrightarrow> Suc idx = m"
    unfolding k8 he using of_nat_eq_u32 [OF a] by auto
  have nxt: "slot_index recs k (Suc c) = (if Suc idx = m then 0 else Suc idx)"
    by (simp add: slot_index_Suc idx_def m_def)
  have l1: "loop iter + 1 = of_nat (Suc c)" by (simp add: f)
  show ?thesis
  proof (cases "Suc idx = m")
    case True
    then show ?thesis
      using wrap nxt l1 f(1) by (simp add: advance_def Let_def advanced_def tp_def)
  next
    case False
    have "of_nat (tp + 8 * Suc idx) = kpos iter + 8" by (simp add: f)
    then show ?thesis
      using False wrap nxt l1 by (simp add: advance_def Let_def advanced_def tp_def [symmetric])
  qed
qed

lemma slot_read:
  assumes small: "length (Make_records recs) < 2 ^ 32"
    and sc: "scanning recs eager k c iter"
    and lt: "c < 2 * length (key_bucket recs k)"
  shows "readNums (db iter) (kpos iter) =
     Inr (case key_slots recs k ! c of None \<Rightarrow> (0, 0) | Some e \<Rightarrow> (fst e, of_nat (snd e)))"
    and "\<not> hslots iter \<le> loop iter"
proof -
  define m where "m = 2 * length (key_bucket recs k)"
  define tp where "tp = key_table_pos recs k"
  define idx where "idx = slot_index recs k c"
  have pos: "0 < length (key_bucket recs k)" using sc by (simp add: scanning_def)
  have idx: "idx < m" unfolding idx_def m_def using pos by (rule slot_index_less)
  have h: "holds_at (Make_records recs) (tp + 8 * idx) (slot_bytes (subtable (key_bucket recs k) ! idx))"
    using key_slot_holds [of idx recs k] idx by (simp add: m_def tp_def)
  have "tp + 8 * idx + 8 \<le> length (Make_records recs)" using holds_at_length [OF h] by simp
  then have b: "tp + 8 * idx < 2 ^ 32" using small by simp
  have kp: "unat (kpos iter) = tp + 8 * idx"
    using sc unat_of_nat_u32 [OF b] by (simp add: scanning_def tp_def idx_def)
  have x: "key_slots recs k ! c = subtable (key_bucket recs k) ! idx"
    using key_slots_nth [OF lt] by (simp add: idx_def)
  have sb: "slot_bytes y = (case (case y of None \<Rightarrow> (0, 0) | Some e \<Rightarrow> (fst e, of_nat (snd e)))
      of (a, b) \<Rightarrow> putNums a b)" for y
    by (simp add: slot_bytes_def split: option.splits prod.splits)
  obtain a b where ab: "(case key_slots recs k ! c of None \<Rightarrow> (0, 0) | Some e \<Rightarrow> (fst e, of_nat (snd e))) = (a, b::u32)"
    by (cases "(case key_slots recs k ! c of None \<Rightarrow> (0::u32, 0::u32) | Some e \<Rightarrow> (fst e, of_nat (snd e)))") auto
  have "holds_at (Make_records recs) (unat (kpos iter)) (putNums a b)"
    using h sb [of "key_slots recs k ! c"] ab x kp by simp
  then have "readNums (bytesReader eager (Make_records recs)) (kpos iter) = Inr (a, b)"
    by (rule readNums_holds)
  then show "readNums (db iter) (kpos iter) =
     Inr (case key_slots recs k ! c of None \<Rightarrow> (0, 0) | Some e \<Rightarrow> (fst e, of_nat (snd e)))"
    using sc ab by (simp add: scanning_def)
  have fin: "tp + 8 * m \<le> length (Make_records recs)"
    using key_table_end [OF pos] by (simp add: tp_def m_def)
  then have m: "m < 2 ^ 32" using small by simp
  then have c: "c < 2 ^ 32" using lt by (simp add: m_def)
  have "\<not> (of_nat m :: u32) \<le> of_nat c"
    using of_nat_le_u32 [OF m c] lt by (simp add: m_def)
  then show "\<not> hslots iter \<le> loop iter"
    using sc by (simp add: scanning_def m_def)
qed

lemma set_entries_of: "set (entries_of xs) = {e. Some e \<in> set xs}"
proof (induction xs)
  case Nil
  then show ?case by simp
next
  case (Cons x xs)
  then show ?case by (cases x) auto
qed

lemma slot_entry:
  assumes "c < 2 * length (key_bucket recs k)" "key_slots recs k ! c = Some e"
  shows "e \<in> set (entries recs 2048)"
proof -
  have "Some e \<in> set (key_slots recs k)"
    using assms nth_mem [of c "key_slots recs k"] by simp
  then have "Some e \<in> set (subtable (key_bucket recs k))"
    by (simp add: key_slots_def)
  then have "e \<in> set (entries_of (subtable (key_bucket recs k)))"
    by (simp add: set_entries_of)
  moreover have "mset (entries_of (subtable (key_bucket recs k))) = mset (key_bucket recs k)"
    using table_inv_subtable [of "key_bucket recs k"] by (simp add: table_inv_def)
  ultimately have "e \<in> set (key_bucket recs k)" by (metis set_mset_mset)
  then show ?thesis using key_bucket_subset by blast
qed

lemma rec_at_nonempty: "rec_at recs c p = Some kv \<Longrightarrow> recs \<noteq> []"
  by (cases recs) auto

lemma record_reads:
  assumes small: "length (Make_records recs) < 2 ^ 32"
    and at: "rec_at recs 2048 p = Some kv"
  shows "readNums (bytesReader eager (Make_records recs)) (of_nat p) =
           Inr (of_nat (length (fst kv)), of_nat (length (snd kv)))"
    and "(of_nat p :: u32) \<noteq> 0"
    and "length k = length (fst kv) \<Longrightarrow>
         match (bytesReader eager (Make_records recs)) k (of_nat p + 8) = Inr (k = fst kv)"
    and "bytesReader eager (Make_records recs) (length (snd kv)) (p + 8 + length (fst kv)) =
           (snd kv, None)"
    and "p + 8 + length (fst kv) + length (snd kv) < 2 ^ 32"
proof -
  let ?F = "Make_records recs"
  have h: "holds_at ?F p (record_bytes kv)" and lo: "2048 \<le> p"
    and hi: "p + length (record_bytes kv) \<le> 2048 + length (record_region recs)"
    using record_holds [OF at] by simp_all
  have "0 < length recs" using rec_at_nonempty [OF at] by simp
  then have end_lt: "2048 + length (record_region recs) < length ?F"
    by (simp add: length_Make_records)
  have in_file: "p + 8 + length (fst kv) + length (snd kv) < length ?F"
    using hi end_lt by simp
  then show b: "p + 8 + length (fst kv) + length (snd kv) < 2 ^ 32" using small by simp
  then have p: "p < 2 ^ 32" by simp
  have up: "unat (of_nat p :: u32) = p" using p by (rule unat_of_nat_u32)
  then show "(of_nat p :: u32) \<noteq> 0" using lo by (metis not_numeral_le_zero unat_0 unsigned_0)
  have rb: "record_bytes kv =
      putNums (of_nat (length (fst kv))) (of_nat (length (snd kv))) @ fst kv @ snd kv"
    by (simp add: record_bytes_def)
  have "holds_at ?F (unat (of_nat p :: u32))
      (putNums (of_nat (length (fst kv))) (of_nat (length (snd kv))))"
    using h holds_at_prefix unfolding rb up by blast
  then show "readNums (bytesReader eager ?F) (of_nat p) =
           Inr (of_nat (length (fst kv)), of_nat (length (snd kv)))"
    by (rule readNums_holds)
  have hk: "holds_at ?F (p + 8) (fst kv)"
    using holds_at_sub [of ?F p "putNums (of_nat (length (fst kv))) (of_nat (length (snd kv)))" "fst kv" "snd kv"] h
    unfolding rb by simp
  have hv: "holds_at ?F (p + 8 + length (fst kv)) (snd kv)"
    using holds_at_sub [of ?F p "putNums (of_nat (length (fst kv))) (of_nat (length (snd kv))) @ fst kv" "snd kv" "[]"] h
    unfolding rb by (simp add: add.assoc)
  have up8: "unat (of_nat p + 8 :: u32) = p + 8"
    using b up by (simp add: unat_word_ariths)
  show "match (bytesReader eager ?F) k (of_nat p + 8) = Inr (k = fst kv)"
    if "length k = length (fst kv)"
    using hk that in_file small unfolding up8 [symmetric]
    by (intro match_holds) (simp_all add: up8)
  have "bytesReader eager ?F (length (snd kv)) (p + 8 + length (fst kv)) =
      (snd kv, if eager \<and> p + 8 + length (fst kv) + length (snd kv) = length ?F then Some EOF else None)"
    using hv in_file by (intro bytesReader_holds) simp_all
  then show "bytesReader eager ?F (length (snd kv)) (p + 8 + length (fst kv)) = (snd kv, None)"
    using in_file by simp
qed

lemma next_pass_built:
  assumes small: "length (Make_records recs) < 2 ^ 32"
    and klen: "length k < 2 ^ 32"
    and sc: "scanning recs eager k c iter"
    and lt: "c < 2 * length (key_bucket recs k)"
  shows "next_pass iter =
     (case key_slots recs k ! c of
        None \<Rightarrow> (Return (Some EOF), iter)
      | Some e \<Rightarrow>
          if is_match recs k e
          then (Return None, (advanced recs k c iter)
                  \<lparr>dpos := of_nat (snd e + 8 + length k), dlen := of_nat (length (value_of recs e))\<rparr>)
          else (Continue, advanced recs k c iter))"
proof -
  note rd = slot_read [OF small sc lt]
  note adv = advance_step [OF small sc lt]
  have f: "db iter = bytesReader eager (Make_records recs)" "key iter = k" "khash iter = checksum k"
    using sc by (simp_all add: scanning_def)
  have af: "db (advanced recs k c iter) = db iter" "key (advanced recs k c iter) = key iter"
    "khash (advanced recs k c iter) = khash iter"
    by (simp_all add: advanced_def)
  show ?thesis
  proof (cases "key_slots recs k ! c")
    case None
    then show ?thesis using rd by (simp add: next_pass_def)
  next
    case (Some e)
    have e: "e \<in> set (entries recs 2048)" using slot_entry [OF lt Some] .
    from rec_at_entries [OF e] obtain kv where
      at: "rec_at recs 2048 (snd e) = Some kv" and hash: "fst e = checksum (fst kv)" by blast
    note rr = record_reads [OF small at]
    have nz: "(of_nat (snd e) :: u32) \<noteq> 0" by (rule rr(2))
    have r1: "readNums (db iter) (kpos iter) = Inr (fst e, of_nat (snd e))"
      using rd(1) Some by simp
    have body: "next_pass iter =
       (if fst e \<noteq> khash (advanced recs k c iter) then (Continue, advanced recs k c iter)
        else case readNums (db (advanced recs k c iter)) (of_nat (snd e)) of
          Inl err \<Rightarrow> (Return (Some err), advanced recs k c iter)
        | Inr (keyLen, dataLen) \<Rightarrow>
            if keyLen \<noteq> of_nat (length (key (advanced recs k c iter))) then (Continue, advanced recs k c iter)
            else case match (db (advanced recs k c iter)) (key (advanced recs k c iter)) (of_nat (snd e) + 8) of
              Inl err \<Rightarrow> (Return (Some err), advanced recs k c iter)
            | Inr isMatch \<Rightarrow>
                if \<not> isMatch then (Continue, advanced recs k c iter)
                else (Return None, (advanced recs k c iter)\<lparr>dpos := of_nat (snd e) + 8 + keyLen, dlen := dataLen\<rparr>))"
      unfolding next_pass_def using rd(2) r1 nz by (simp add: adv Let_def)
    show ?thesis
    proof (cases "fst e = checksum k")
      case False
      then have "\<not> is_match recs k e" by (simp add: is_match_def)
      then show ?thesis using body False Some by (simp add: af f)
    next
      case True
      have r2: "readNums (db (advanced recs k c iter)) (of_nat (snd e)) =
           Inr (of_nat (length (fst kv)), of_nat (length (snd kv)))"
        using rr(1) [of eager] by (simp add: af f)
      have kvlen: "length (fst kv) < 2 ^ 32" using rr(5) by simp
      show ?thesis
      proof (cases "length (fst kv) = length k")
        case F: False
        then have "(of_nat (length (fst kv)) :: u32) \<noteq> of_nat (length k)"
          using of_nat_eq_u32 [OF kvlen klen] by simp
        moreover have "\<not> is_match recs k e" using F at by (auto simp add: is_match_def)
        ultimately show ?thesis using body True r2 Some by (simp add: af f)
      next
        case T: True
        have r2n: "readNums (bytesReader eager (Make_records recs)) (of_nat (snd e)) =
           Inr (of_nat (length k), of_nat (length (snd kv)))"
          using rr(1) [of eager] T by simp
        have mtn: "match (bytesReader eager (Make_records recs)) k (of_nat (snd e) + 8)
            = Inr (k = fst kv)"
          using rr(3) [of k eager] T by simp
        have b1: "next_pass iter =
           (case match (bytesReader eager (Make_records recs)) k (of_nat (snd e) + 8) of
              Inl err \<Rightarrow> (Return (Some err), advanced recs k c iter)
            | Inr isMatch \<Rightarrow>
                if \<not> isMatch then (Continue, advanced recs k c iter)
                else (Return None, (advanced recs k c iter)
                       \<lparr>dpos := of_nat (snd e) + 8 + of_nat (length k),
                         dlen := of_nat (length (snd kv))\<rparr>))"
          unfolding body using True by (simp add: af f r2n)
        have vo: "value_of recs e = snd kv" using at by (simp add: value_of_def)
        have dp: "(of_nat (snd e) :: u32) + 8 + of_nat (length k) = of_nat (snd e + 8 + length k)"
          by simp
        show ?thesis
        proof (cases "k = fst kv")
          case eq: True
          then have "is_match recs k e" using at True by (simp add: is_match_def)
          moreover have "next_pass iter = (Return None, (advanced recs k c iter)
                       \<lparr>dpos := of_nat (snd e + 8 + length k),
                         dlen := of_nat (length (value_of recs e))\<rparr>)"
            unfolding b1 mtn vo dp [symmetric] using eq by (simp only: simp_thms sum.case if_False)
          ultimately show ?thesis using Some by simp
        next
          case ne: False
          then have "\<not> is_match recs k e" using at by (simp add: is_match_def)
          moreover have "next_pass iter = (Continue, advanced recs k c iter)"
            unfolding b1 mtn using ne by (simp only: simp_thms sum.case if_True)
          ultimately show ?thesis using Some by simp
        qed
      qed
    qed
  qed
qed

fun scan :: "(entry \<Rightarrow> bool) \<Rightarrow> slot list \<Rightarrow> (nat \<times> entry) option" where
  "scan P [] = None"
| "scan P (None # xs) = None"
| "scan P (Some e # xs) =
     (if P e then Some (1, e) else map_option (\<lambda>(i, e). (Suc i, e)) (scan P xs))"

lemma scan_None:
  "scan P xs = None \<Longrightarrow> filter P (entries_of (takeWhile occupied xs)) = []"
  by (induction P xs rule: scan.induct) (auto split: if_splits)

lemma scan_Some:
  "scan P xs = Some (i, e) \<Longrightarrow>
   0 < i \<and> i \<le> length xs \<and> xs ! (i - 1) = Some e \<and> P e \<and>
   filter P (entries_of (takeWhile occupied xs)) =
     e # filter P (entries_of (takeWhile occupied (drop i xs)))"
proof (induction P xs arbitrary: i rule: scan.induct)
  case (1 P)
  then show ?case by simp
next
  case (2 P xs)
  then show ?case by simp
next
  case (3 P e' xs)
  show ?case
  proof (cases "P e'")
    case True
    then have "i = 1" "e = e'" using "3.prems" by simp_all
    then show ?thesis using True by simp
  next
    case False
    then obtain j where j: "scan P xs = Some (j, e)" "i = Suc j"
      using "3.prems" by (auto split: if_splits)
    from "3.IH" [OF False j(1)] j(2) False show ?thesis by (cases j) auto
  qed
qed

lemma next_loop_built:
  assumes small: "length (Make_records recs) < 2 ^ 32" and klen: "length k < 2 ^ 32"
  shows "scanning recs eager k c iter \<Longrightarrow>
     (case scan (is_match recs k) (drop c (key_slots recs k)) of
        None \<Rightarrow> fst (next_loop iter) = Some EOF
      | Some (i, e) \<Rightarrow>
          \<exists>iter'. next_loop iter = (None, iter') \<and> scanning recs eager k (c + i) iter' \<and>
            dpos iter' = of_nat (snd e + 8 + length k) \<and>
            dlen iter' = of_nat (length (value_of recs e)))"
proof (induction "2 * length (key_bucket recs k) - c" arbitrary: c iter rule: less_induct)
  case less
  let ?m = "2 * length (key_bucket recs k)"
  have cm: "c \<le> ?m" using less.prems by (simp add: scanning_def)
  show ?case
  proof (cases "c < ?m")
    case False
    then have "c = ?m" using cm by simp
    then have "hslots iter \<le> loop iter" using less.prems by (simp add: scanning_def)
    then have "next_loop iter = (Some EOF, iter)"
      by (subst next_loop.simps) (simp add: next_pass_def)
    moreover have "drop c (key_slots recs k) = []" using False by simp
    ultimately show ?thesis by simp
  next
    case True
    note np = next_pass_built [OF small klen less.prems True]
    have dr: "drop c (key_slots recs k) = key_slots recs k ! c # drop (Suc c) (key_slots recs k)"
      using True by (simp add: Cons_nth_drop_Suc)
    note sa = scanning_advanced [OF less.prems True]
    show ?thesis
    proof (cases "key_slots recs k ! c")
      case None
      then have "next_loop iter = (Some EOF, iter)"
        using np by (subst next_loop.simps) simp
      then show ?thesis using None dr by simp
    next
      case (Some e)
      show ?thesis
      proof (cases "is_match recs k e")
        case T: True
        have "next_loop iter = (None, (advanced recs k c iter)
                  \<lparr>dpos := of_nat (snd e + 8 + length k), dlen := of_nat (length (value_of recs e))\<rparr>)"
          using np Some T by (subst next_loop.simps) simp
        moreover have "scanning recs eager k (c + 1) ((advanced recs k c iter)
                  \<lparr>dpos := of_nat (snd e + 8 + length k), dlen := of_nat (length (value_of recs e))\<rparr>)"
          using scanning_result [OF sa] by simp
        ultimately show ?thesis using Some T dr by simp
      next
        case F: False
        have nl: "next_loop iter = next_loop (advanced recs k c iter)"
          using np Some F by (subst next_loop.simps) simp
        have IH: "case scan (is_match recs k) (drop (Suc c) (key_slots recs k)) of
            None \<Rightarrow> fst (next_loop (advanced recs k c iter)) = Some EOF
          | Some (i, e) \<Rightarrow>
              \<exists>iter'. next_loop (advanced recs k c iter) = (None, iter') \<and>
                scanning recs eager k (Suc c + i) iter' \<and>
                dpos iter' = of_nat (snd e + 8 + length k) \<and>
                dlen iter' = of_nat (length (value_of recs e))"
          using True by (intro less.hyps sa) simp
        show ?thesis
        proof (cases "scan (is_match recs k) (drop (Suc c) (key_slots recs k))")
          case None
          then show ?thesis using IH nl Some F dr by simp
        next
          case (Some ie)
          obtain i e' where ie: "ie = (i, e')" by (cases ie)
          show ?thesis using IH nl \<open>key_slots recs k ! c = Some e\<close> F dr Some ie by simp
        qed
      qed
    qed
  qed
qed

lemma matched_record:
  assumes "e \<in> set (entries recs 2048)" "is_match recs k e"
  shows "rec_at recs 2048 (snd e) = Some (k, value_of recs e)"
proof -
  from rec_at_entries [OF assms(1)] obtain kv where "rec_at recs 2048 (snd e) = Some kv" by blast
  then show ?thesis using assms(2) by (simp add: is_match_def value_of_def prod_eq_iff)
qed

lemma NextBytes_built:
  assumes small: "length (Make_records recs) < 2 ^ 32" and klen: "length k < 2 ^ 32"
    and sc: "scanning recs eager k c iter"
  shows "case scan (is_match recs k) (drop c (key_slots recs k)) of
        None \<Rightarrow> fst (NextBytes iter) = Inl EOF
      | Some (i, e) \<Rightarrow>
          \<exists>iter'. NextBytes iter = (Inr (value_of recs e), iter') \<and> scanning recs eager k (c + i) iter'"
proof -
  note nl = next_loop_built [OF small klen sc]
  have ni: "next_it iter = next_loop iter" using sc by (simp add: next_it_def scanning_def)
  show ?thesis
  proof (cases "scan (is_match recs k) (drop c (key_slots recs k))")
    case None
    then have "fst (next_loop iter) = Some EOF" using nl by simp
    then obtain it' where "next_loop iter = (Some EOF, it')" by (cases "next_loop iter") simp
    then show ?thesis using None ni by (simp add: NextBytes_def)
  next
    case (Some ie)
    obtain i e where ie: "ie = (i, e)" by (cases ie)
    from nl Some ie obtain iter' where
      n: "next_loop iter = (None, iter')" and s': "scanning recs eager k (c + i) iter'"
      and dp: "dpos iter' = of_nat (snd e + 8 + length k)"
      and dl: "dlen iter' = of_nat (length (value_of recs e))" by auto
    from scan_Some [OF Some [unfolded ie]] have i: "0 < i" "i \<le> length (drop c (key_slots recs k))"
      and at: "drop c (key_slots recs k) ! (i - 1) = Some e" and m: "is_match recs k e" by simp_all
    have ci: "c + (i - 1) < 2 * length (key_bucket recs k)" using i by simp
    have "key_slots recs k ! (c + (i - 1)) = Some e" using at ci by simp
    from slot_entry [OF ci this] have e: "e \<in> set (entries recs 2048)" .
    note r = matched_record [OF e m]
    note rr = record_reads [OF small r]
    have b: "snd e + 8 + length k + length (value_of recs e) < 2 ^ 32" using rr(5) by simp
    have "unat (dpos iter') = snd e + 8 + length k"
      unfolding dp using b by (intro unat_of_nat_u32) simp
    moreover have "unat (dlen iter') = length (value_of recs e)"
      unfolding dl using b by (intro unat_of_nat_u32) simp
    moreover have "db iter' = bytesReader eager (Make_records recs)"
      using s' by (simp add: scanning_def)
    ultimately have "db iter' (unat (dlen iter')) (unat (dpos iter')) = (value_of recs e, None)"
      using rr(4) [of eager] by simp
    then have "NextBytes iter = (Inr (value_of recs e), iter')"
      using ni n by (simp add: NextBytes_def)
    then show ?thesis using Some ie s' by simp
  qed
qed

lemma drain_built:
  assumes small: "length (Make_records recs) < 2 ^ 32" and klen: "length k < 2 ^ 32"
  shows "scanning recs eager k c iter \<Longrightarrow>
     drain iter =
       (map (value_of recs)
          (filter (is_match recs k) (entries_of (takeWhile occupied (drop c (key_slots recs k))))),
        EOF)"
proof (induction "2 * length (key_bucket recs k) - c" arbitrary: c iter rule: less_induct)
  case less
  note nb = NextBytes_built [OF small klen less.prems]
  show ?case
  proof (cases "scan (is_match recs k) (drop c (key_slots recs k))")
    case None
    then have "fst (NextBytes iter) = Inl EOF" using nb by simp
    then obtain it' where "NextBytes iter = (Inl EOF, it')" by (cases "NextBytes iter") simp
    then have "drain iter = ([], EOF)"
      by (subst drain.simps) simp
    then show ?thesis using scan_None [OF None] by simp
  next
    case (Some ie)
    obtain i e where ie: "ie = (i, e)" by (cases ie)
    from nb Some ie obtain iter' where
      n: "NextBytes iter = (Inr (value_of recs e), iter')"
      and s': "scanning recs eager k (c + i) iter'" by auto
    from scan_Some [OF Some [unfolded ie]] have i: "0 < i" "i \<le> length (drop c (key_slots recs k))"
      and f: "filter (is_match recs k) (entries_of (takeWhile occupied (drop c (key_slots recs k)))) =
        e # filter (is_match recs k) (entries_of (takeWhile occupied (drop i (drop c (key_slots recs k)))))"
      by simp_all
    have "c + i \<le> 2 * length (key_bucket recs k)" using s' by (simp add: scanning_def)
    then have dec: "2 * length (key_bucket recs k) - (c + i) < 2 * length (key_bucket recs k) - c"
      using i by simp
    have "drain iter' =
       (map (value_of recs)
          (filter (is_match recs k) (entries_of (takeWhile occupied (drop (c + i) (key_slots recs k))))),
        EOF)"
      using dec s' by (rule less.hyps)
    then have "drain iter =
       (value_of recs e # map (value_of recs)
          (filter (is_match recs k) (entries_of (takeWhile occupied (drop (c + i) (key_slots recs k))))),
        EOF)"
      using n by (subst drain.simps) simp
    then show ?thesis using f by (simp add: add.commute)
  qed
qed

lemma matches_of_key:
  "map (value_of recs) (filter (is_match recs k) (entries recs 2048)) =
   map snd (filter (\<lambda>kv. fst kv = k) recs)"
proof -
  have "filter (is_match recs k) (entries recs 2048) =
      filter (\<lambda>e. fst (the (rec_at recs 2048 (snd e))) = k) (entries recs 2048)"
  proof (rule filter_cong [OF refl])
    fix e assume "e \<in> set (entries recs 2048)"
    from rec_at_entries [OF this] obtain kv where
      "rec_at recs 2048 (snd e) = Some kv" "fst e = checksum (fst kv)" by blast
    then show "is_match recs k e \<longleftrightarrow> fst (the (rec_at recs 2048 (snd e))) = k"
      by (auto simp add: is_match_def)
  qed
  then show ?thesis
    using rec_at_filter [of recs 2048 k] by (simp add: value_of_def [abs_def])
qed

lemma matches_in_bucket:
  "filter (is_match recs k) (with_hash (checksum k) (key_bucket recs k)) =
   filter (is_match recs k) (entries recs 2048)"
proof -
  have "is_match recs k e \<Longrightarrow> fst e = checksum k \<and> unat (fst e) mod 256 = unat (checksum k) mod 256" for e
    by (simp add: is_match_def)
  then show ?thesis
    unfolding with_hash_def key_bucket_def bucket_def filter_filter
    by (intro filter_cong refl) auto
qed

lemma matches_with_hash:
  "filter (is_match recs k) xs = filter (is_match recs k) (with_hash (checksum k) xs)"
  unfolding with_hash_def filter_filter
  by (intro filter_cong refl) (auto simp add: is_match_def)

lemma drain_Iterate:
  assumes small: "length (Make_records recs) < 2 ^ 32" and klen: "length k < 2 ^ 32"
  shows "drain (Iterate (bytesReader eager (Make_records recs)) k) =
           (map snd (filter (\<lambda>kv. fst kv = k) recs), EOF)"
proof (cases "key_bucket recs k = []")
  case True
  then have "initErr (Iterate (bytesReader eager (Make_records recs)) k) = Some EOF"
    using Iterate_built [OF small, of k eager] by simp
  then have "drain (Iterate (bytesReader eager (Make_records recs)) k) = ([], EOF)"
    by (subst drain.simps) (simp add: NextBytes_def next_it_def)
  moreover have "filter (is_match recs k) (entries recs 2048) = []"
    using matches_in_bucket [of recs k] True by simp
  ultimately show ?thesis using matches_of_key [of recs k] by simp
next
  case False
  then have sc: "scanning recs eager k 0 (Iterate (bytesReader eager (Make_records recs)) k)"
    using Iterate_built [OF small, of k eager] by simp
  have "filter (is_match recs k) (entries_of (takeWhile occupied (key_slots recs k))) =
      filter (is_match recs k) (with_hash (checksum k)
        (entries_of (run (subtable (key_bucket recs k))
           (home (length (subtable (key_bucket recs k))) (checksum k)))))"
    using matches_with_hash [of recs k "entries_of (takeWhile occupied (key_slots recs k))"]
    by (simp add: key_slots_def run_def)
  also have "\<dots> = filter (is_match recs k) (with_hash (checksum k) (key_bucket recs k))"
    using table_inv_subtable [of "key_bucket recs k"] by (simp only: table_inv_def)
  also have "\<dots> = filter (is_match recs k) (entries recs 2048)"
    by (rule matches_in_bucket)
  finally show ?thesis
    using drain_built [OF small klen sc] matches_of_key [of recs k] by simp
qed


section \<open>Values of a key\<close>

lemma drain_first:
  "drain iter = ([], err) \<Longrightarrow> fst (NextBytes iter) = Inl err"
  by (subst (asm) drain.simps) (auto split: prod.splits sum.splits)

lemma length_Make_test_recs: "length (Make_records test_recs) = 2226"
  by (simp add: length_Make_records length_record_region test_recs_def)

text \<open>
  C1. In the file built from any sequence of records, as long as the file stays below
  the 4 GB that 32-bit positions can address (and the key asked for is shorter than that),
  successive \<open>NextBytes\<close> calls on \<open>Iterate k\<close> return the values recorded for \<open>k\<close>, all of
  them and in write order, and then \<open>io.EOF\<close>; for a key that was never written the first
  call already returns \<open>io.EOF\<close>. This holds for either behaviour of the byte source at
  the end of the data.
\<close>

theorem lookup_yields_values_in_write_order:
  assumes "length (Make_records recs) < 2 ^ 32" and "length k < 2 ^ 32"
  shows "drain (Iterate (bytesReader eager (Make_records recs)) k) =
           (map snd (filter (\<lambda>kv. fst kv = k) recs), EOF) \<and>
         (k \<notin> fst ` set recs \<longrightarrow>
            fst (NextBytes (Iterate (bytesReader eager (Make_records recs)) k)) = Inl EOF)"
proof -
  note d = drain_Iterate [OF assms, of eager]
  have "filter (\<lambda>kv. fst kv = k) recs = []" if "k \<notin> fst ` set recs"
    using that by (auto simp add: filter_empty_conv)
  then show ?thesis using d drain_first by auto
qed

theorem lookup_yields_values_in_write_order_witness:
  "length (Make_records test_recs) < 2 ^ 32 \<and> length [116,119,111::byte] < 2 ^ 32 \<and>
   drain (Iterate (bytesReader False (Make_records test_recs)) [116,119,111]) =
     ([[50], [50,50]], EOF) \<and>
   [102,111,117,114] \<notin> fst ` set test_recs \<and>
   fst (NextBytes (Iterate (bytesReader False (Make_records test_recs)) [102,111,117,114])) = Inl EOF"
proof -
  have a: "length (Make_records test_recs) < 2 ^ 32" by (simp add: length_Make_test_recs)
  have b: "length [116,119,111::byte] < 2 ^ 32" "length [102,111,117,114::byte] < 2 ^ 32" by simp_all
  have c: "[102,111,117,114] \<notin> fst ` set test_recs" by (simp add: test_recs_def)
  have d: "map snd (filter (\<lambda>kv. fst kv = [116,119,111]) test_recs) = [[50], [50,50]]"
    by (simp add: test_recs_def)
  show ?thesis
    using lookup_yields_values_in_write_order [OF a b(1), of False]
      lookup_yields_values_in_write_order [OF a b(2), of False] a c d
    by simp
qed

section \<open>Collisions and the existence check\<close>

lemma next_pass_Return_None:
  assumes "next_pass iter = (Return None, iter')"
  shows "\<exists>recPos. readNums (db iter) (kpos iter) = Inr (khash iter, recPos) \<and>
           readNums (db iter) recPos = Inr (of_nat (length (key iter)), dlen iter') \<and>
           match (db iter) (key iter) (recPos + 8) = Inr True \<and>
           dpos iter' = recPos + 8 + of_nat (length (key iter))"
  using assms
  by (auto simp add: next_pass_def Let_def split: if_splits sum.splits prod.splits)

lemma next_loop_Return_None:
  "next_loop iter = (None, iter') \<Longrightarrow>
   \<exists>slot recPos. readNums (db iter) slot = Inr (khash iter, recPos) \<and>
           readNums (db iter) recPos = Inr (of_nat (length (key iter)), dlen iter') \<and>
           match (db iter) (key iter) (recPos + 8) = Inr True \<and>
           dpos iter' = recPos + 8 + of_nat (length (key iter))"
proof (induction iter rule: next_loop.induct)
  case (1 iter)
  show ?case
  proof (cases "next_pass iter")
    case (Pair oc it1)
    show ?thesis
    proof (cases oc)
      case (Return err)
      with Pair "1.prems" have "next_pass iter = (Return None, iter')"
        by (subst (asm) next_loop.simps) simp
      from next_pass_Return_None [OF this] show ?thesis by blast
    next
      case Continue
      with Pair have c: "next_pass iter = (Continue, it1)" by simp
      then have "next_loop it1 = (None, iter')"
        using "1.prems" by (subst (asm) next_loop.simps) simp
      from "1.IH" [OF c [symmetric] refl this] next_pass_Continue(5,6,7) [OF c]
      show ?thesis by simp
    qed
  qed
qed

lemma match_from_True:
  assumes small: "length s < 2 ^ 32"
  shows "match_from (bytesReader eager s) k n pos = Inr True \<Longrightarrow> n \<le> length k \<Longrightarrow>
     take (length k - n) (drop (unat pos) s) = drop n k"
proof (induction "length k - n" arbitrary: n pos rule: less_induct)
  case less
  show ?case
  proof (cases "n < length k")
    case False
    then show ?thesis using less.prems by simp
  next
    case True
    define blen where "blen = (if 64 > length k - n then length k - n else 64)"
    have blen: "0 < blen" "n + blen \<le> length k" using True by (auto simp add: blen_def)
    obtain d err where rd: "bytesReader eager s blen (unat pos) = (d, err)"
      by (cases "bytesReader eager s blen (unat pos)")
    have unf: "match_from (bytesReader eager s) k n pos =
       (case err of Some e \<Rightarrow> Inl e
        | None \<Rightarrow> if d \<noteq> take blen (drop n k) then Inr False
                  else match_from (bytesReader eager s) k (n + blen) (pos + of_nat blen))"
    proof (cases err)
      case None
      then show ?thesis using True rd
        by (subst match_from.simps) (simp add: blen_def Let_def)
    next
      case (Some e)
      then show ?thesis using True rd
        by (subst match_from.simps) (simp add: blen_def Let_def)
    qed
    from less.prems(1) unf have err: "err = None" and d: "d = take blen (drop n k)"
      and rec: "match_from (bytesReader eager s) k (n + blen) (pos + of_nat blen) = Inr True"
      by (auto split: option.splits if_splits)
    have inside: "unat pos < length s" and full: "d = take blen (drop (unat pos) s)"
      and ld: "\<not> length (take blen (drop (unat pos) s)) < blen"
      using rd err by (auto simp add: bytesReader_def Let_def split: if_splits)
    have fits: "unat pos + blen \<le> length s" using ld inside by simp
    then have up: "unat (pos + of_nat blen) = unat pos + blen"
      using small by (simp add: unat_word_ariths unat_of_nat_u32)
    have IH: "take (length k - (n + blen)) (drop (unat pos + blen) s) = drop (n + blen) k"
      using less.hyps [OF _ rec] blen True up by simp
    have "take (length k - n) (drop (unat pos) s) =
        take blen (drop (unat pos) s) @ take (length k - n - blen) (drop blen (drop (unat pos) s))"
      using blen by (metis take_add le_add_diff_inverse add_le_imp_le_diff add.commute)
    also have "\<dots> = take blen (drop n k) @ drop (n + blen) k"
      using IH full d by (simp add: add.commute)
    also have "\<dots> = drop n k"
      by (metis append_take_drop_id drop_drop add.commute)
    finally show ?thesis .
  qed
qed

lemma match_True:
  "length s < 2 ^ 32 \<Longrightarrow> match (bytesReader eager s) k pos = Inr True \<Longrightarrow>
   take (length k) (drop (unat pos) s) = k"
  using match_from_True [of s eager k 0 pos] by (simp add: match_def)

lemma drain_Cons:
  "drain iter = (v # vs, err) \<Longrightarrow> \<exists>iter'. next_it iter = (None, iter')"
  by (subst (asm) drain.simps)
    (auto simp add: NextBytes_def split: prod.splits sum.splits option.splits)

lemma NextBytes_EOF:
  "fst (NextBytes iter) = Inl EOF \<Longrightarrow> fst (next_it iter) = Some EOF"
  by (auto simp add: NextBytes_def split: prod.splits option.splits if_splits)

lemma Exists_built:
  assumes "length (Make_records recs) < 2 ^ 32" and "length k < 2 ^ 32"
  shows "Exists (bytesReader eager (Make_records recs)) k = (k \<in> fst ` set recs, None)"
proof (cases "k \<in> fst ` set recs")
  case True
  then have "filter (\<lambda>kv. fst kv = k) recs \<noteq> []"
    by (auto simp add: filter_empty_conv)
  then obtain v vs where "map snd (filter (\<lambda>kv. fst kv = k) recs) = v # vs"
    by (cases "map snd (filter (\<lambda>kv. fst kv = k) recs)") auto
  then have "drain (Iterate (bytesReader eager (Make_records recs)) k) = (v # vs, EOF)"
    using drain_Iterate [OF assms, of eager] by simp
  from drain_Cons [OF this] show ?thesis using True by (auto simp add: Exists_def)
next
  case False
  then have "filter (\<lambda>kv. fst kv = k) recs = []"
    by (auto simp add: filter_empty_conv)
  then have "drain (Iterate (bytesReader eager (Make_records recs)) k) = ([], EOF)"
    using drain_Iterate [OF assms, of eager] by simp
  from NextBytes_EOF [OF drain_first [OF this]] show ?thesis using False by (simp add: Exists_def)
qed

lemma readNums_Inl:
  assumes "readNums rd pos = Inl err"
  shows "read_failed rd err"
proof -
  obtain d e where rd: "rd 8 (unat pos) = (d, e)" by (cases "rd 8 (unat pos)")
  from assms rd have "e = Some err \<or> (err = ErrUnexpectedEOF \<and> e = Some EOF)"
    by (auto simp add: readNums_def Let_def split: option.splits if_splits)
  then have "snd (rd 8 (unat pos)) = Some err \<or>
      (err = ErrUnexpectedEOF \<and> snd (rd 8 (unat pos)) = Some EOF)"
    using rd by simp
  then show ?thesis unfolding read_failed_def by blast
qed

lemma match_from_Inl: "match_from rd k n pos = Inl err \<Longrightarrow> read_failed rd err"
proof (induction "length k - n" arbitrary: n pos rule: less_induct)
  case less
  show ?case
  proof (cases "n < length k")
    case False
    then show ?thesis using less.prems by (subst (asm) match_from.simps) simp
  next
    case True
    define blen where "blen = (if 64 > length k - n then length k - n else 64)"
    have blen: "0 < blen" "n + blen \<le> length k" using True by (auto simp add: blen_def)
    obtain d e where rd: "rd blen (unat pos) = (d, e)" by (cases "rd blen (unat pos)")
    show ?thesis
    proof (cases e)
      case (Some x)
      then have "match_from rd k n pos = Inl x"
        using True rd by (subst match_from.simps) (simp add: blen_def Let_def)
      then have "x = err" using less.prems by simp
      then have "snd (rd blen (unat pos)) = Some err" using rd Some by simp
      then show ?thesis unfolding read_failed_def by blast
    next
      case None
      have u: "match_from rd k n pos =
         (if d \<noteq> take blen (drop n k) then Inr False
          else match_from rd k (n + blen) (pos + of_nat blen))"
        using True rd None by (subst match_from.simps) (simp add: blen_def Let_def)
      then have rec: "match_from rd k (n + blen) (pos + of_nat blen) = Inl err"
        using less.prems by (auto split: if_splits)
      show ?thesis using less.hyps [OF _ rec] blen True by simp
    qed
  qed
qed

lemma next_pass_error:
  assumes "next_pass iter = (Return (Some err), iter')"
  shows "err = EOF \<or> read_failed (db iter) err"
  using assms readNums_Inl [of "db iter"] match_from_Inl [of "db iter" "key iter" 0]
  by (auto simp add: next_pass_def Let_def match_def split: if_splits sum.splits prod.splits)

lemma next_loop_error:
  "next_loop iter = (Some err, iter') \<Longrightarrow> err = EOF \<or> read_failed (db iter) err"
proof (induction iter rule: next_loop.induct)
  case (1 iter)
  show ?case
  proof (cases "next_pass iter")
    case (Pair oc it1)
    show ?thesis
    proof (cases oc)
      case (Return e)
      with Pair "1.prems" have "next_pass iter = (Return (Some err), iter')"
        by (subst (asm) next_loop.simps) simp
      then show ?thesis by (rule next_pass_error)
    next
      case Continue
      with Pair have c: "next_pass iter = (Continue, it1)" by simp
      then have "next_loop it1 = (Some err, iter')"
        using "1.prems" by (subst (asm) next_loop.simps) simp
      from "1.IH" [OF c [symmetric] refl this] next_pass_Continue(5) [OF c]
      show ?thesis by simp
    qed
  qed
qed

lemma Exists_error:
  assumes "Exists c k = (b, Some err)"
  shows "\<not> b \<and> err \<noteq> EOF \<and> read_failed c err"
proof -
  obtain e it where n: "next_it (Iterate c k) = (e, it)" by (cases "next_it (Iterate c k)")
  with assms have e: "e = Some err" "err \<noteq> EOF" "\<not> b"
    by (auto simp add: Exists_def split: option.splits if_splits)
  have dbI: "db (Iterate c k) = c"
    by (simp add: Iterate_def Let_def split: sum.splits prod.splits)
  have "read_failed c err"
  proof (cases "initErr (Iterate c k)")
    case None
    then have "next_loop (Iterate c k) = (Some err, it)" using n e by (simp add: next_it_def)
    from next_loop_error [OF this] e dbI show ?thesis by simp
  next
    case (Some x)
    then have "x = err" using n e by (simp add: next_it_def)
    then have "initErr (Iterate c k) = Some err" using Some by simp
    then have "readNums c (checksum k mod 256 * 8) = Inl err"
      using e by (auto simp add: Iterate_def Let_def split: sum.splits prod.splits if_splits)
    then show ?thesis by (rule readNums_Inl)
  qed
  then show ?thesis using e by simp
qed

lemma checksum_collide: "checksum [98,99] = checksum [99,66]"
  by (simp add: checksum_def)

lemma length_Make_collide_recs: "length (Make_records collide_recs) = 2102"
  by (simp add: length_Make_records length_record_region collide_recs_def)

text \<open>
  C2. When \<open>next\<close> reports a match, it has read a slot whose hash is the key's hash, the
  record that slot points to states the key's length, and \<open>match\<close> on the stored key
  returned true; on an in-memory file \<open>match\<close> returns true only if the stored bytes are
  the key, byte for byte. So in a built database two distinct keys in the same bucket
  (in particular with the same hash) each get exactly their own values, followed by
  \<open>io.EOF\<close> and no other error.
\<close>

theorem lookup_compares_hash_length_and_key:
  "(next_it iter = (None, iter') \<longrightarrow>
      (\<exists>slot recPos.
         readNums (db iter) slot = Inr (khash iter, recPos) \<and>
         readNums (db iter) recPos = Inr (of_nat (length (key iter)), dlen iter') \<and>
         match (db iter) (key iter) (recPos + 8) = Inr True \<and>
         dpos iter' = recPos + 8 + of_nat (length (key iter)))) \<and>
   (length s < 2 ^ 32 \<and> match (bytesReader eager s) k pos = Inr True \<longrightarrow>
      take (length k) (drop (unat pos) s) = k) \<and>
   (length (Make_records recs) < 2 ^ 32 \<and> length k1 < 2 ^ 32 \<and> length k2 < 2 ^ 32 \<and>
    k1 \<noteq> k2 \<and> unat (checksum k1) mod 256 = unat (checksum k2) mod 256 \<longrightarrow>
      drain (Iterate (bytesReader eager (Make_records recs)) k1) =
        (map snd (filter (\<lambda>kv. fst kv = k1) recs), EOF) \<and>
      drain (Iterate (bytesReader eager (Make_records recs)) k2) =
        (map snd (filter (\<lambda>kv. fst kv = k2) recs), EOF))"
proof -
  have a: "next_it iter = (None, iter') \<Longrightarrow>
      (\<exists>slot recPos.
         readNums (db iter) slot = Inr (khash iter, recPos) \<and>
         readNums (db iter) recPos = Inr (of_nat (length (key iter)), dlen iter') \<and>
         match (db iter) (key iter) (recPos + 8) = Inr True \<and>
         dpos iter' = recPos + 8 + of_nat (length (key iter)))"
    using next_loop_Return_None [of iter iter']
    by (cases "initErr iter") (simp_all add: next_it_def)
  show ?thesis
    using a match_True [of s eager k pos] drain_Iterate [of recs k1 eager]
      drain_Iterate [of recs k2 eager]
    by blast
qed

lemma match_example: "match (bytesReader False [1,2,3]) [2,3] 1 = Inr True"
  unfolding match_def
  by (subst match_from.simps, simp add: bytesReader_def)
     (subst match_from.simps, simp)

theorem lookup_compares_hash_length_and_key_witness:
  "length (Make_records collide_recs) < 2 ^ 32 \<and>
   [98,99] \<noteq> [99,66::byte] \<and> checksum [98,99] = checksum [99,66] \<and>
   drain (Iterate (bytesReader False (Make_records collide_recs)) [98,99]) = ([[1]], EOF) \<and>
   drain (Iterate (bytesReader False (Make_records collide_recs)) [99,66]) = ([[2]], EOF) \<and>
   (\<exists>iter'. next_it (Iterate (bytesReader False (Make_records collide_recs)) [98,99]) = (None, iter') \<and>
      (\<exists>slot recPos.
         readNums (bytesReader False (Make_records collide_recs)) slot = Inr (checksum [98,99], recPos) \<and>
         match (bytesReader False (Make_records collide_recs)) [98,99] (recPos + 8) = Inr True)) \<and>
   length [1,2,3::byte] < 2 ^ 32 \<and> match (bytesReader False [1,2,3]) [2,3] 1 = Inr True \<and>
   take (length [2,3::byte]) (drop (unat (1::u32)) [1,2,3::byte]) = [2,3]"
proof -
  let ?db = "bytesReader False (Make_records collide_recs)"
  have small: "length (Make_records collide_recs) < 2 ^ 32"
    by (simp add: length_Make_collide_recs)
  have ne: "[98,99] \<noteq> [99,66::byte]" by simp
  have len: "length [98,99::byte] < 2 ^ 32" "length [99,66::byte] < 2 ^ 32" by simp_all
  have bk: "unat (checksum [98,99]) mod 256 = unat (checksum [99,66]) mod 256"
    by (simp add: checksum_collide)
  have f: "map snd (filter (\<lambda>kv. fst kv = [98,99]) collide_recs) = [[1]]"
    "map snd (filter (\<lambda>kv. fst kv = [99,66]) collide_recs) = [[2]]"
    by (simp_all add: collide_recs_def)
  have d: "drain (Iterate ?db [98,99]) = ([[1]], EOF)" "drain (Iterate ?db [99,66]) = ([[2]], EOF)"
    using lookup_compares_hash_length_and_key [where recs = collide_recs and ?k1.0 = "[98,99]"
        and ?k2.0 = "[99,66]" and eager = False] small ne len bk f
    by simp_all
  from drain_Cons [OF d(1)] obtain it where it: "next_it (Iterate ?db [98,99]) = (None, it)" ..
  have I: "db (Iterate ?db [98,99]) = ?db" "key (Iterate ?db [98,99]) = [98,99]"
    "khash (Iterate ?db [98,99]) = checksum [98,99]"
    by (simp_all add: Iterate_def Let_def split: sum.splits prod.splits)
  have e: "\<exists>slot recPos.
         readNums ?db slot = Inr (checksum [98,99], recPos) \<and>
         match ?db [98,99] (recPos + 8) = Inr True"
    using lookup_compares_hash_length_and_key [where iter = "Iterate ?db [98,99]" and iter' = it] it
    unfolding I by blast
  have m: "take (length [2,3::byte]) (drop (unat (1::u32)) [1,2,3::byte]) = [2,3]"
    using lookup_compares_hash_length_and_key [where s = "[1,2,3]" and eager = False
        and k = "[2,3]" and pos = 1] match_example
    by simp
  show ?thesis using small ne checksum_collide d it e m match_example by auto
qed

text \<open>
  C10. \<open>Exists\<close> returns \<open>(true, nil)\<close> when \<open>next\<close> finds a value, \<open>(false, nil)\<close> when
  \<open>next\<close> signals \<open>io.EOF\<close>, and \<open>(false, err)\<close> for every other error; an error it returns
  is never \<open>io.EOF\<close> and goes back to a \<open>ReadAt\<close> of the byte source that reported an
  error. On a built database (below 4 GB) it returns \<open>(true, nil)\<close> exactly for the keys
  that have a value and \<open>(false, nil)\<close> for all others.
\<close>

theorem Exists_absorbs_exhaustion:
  "(fst (next_it (Iterate c k)) = None \<longrightarrow> Exists c k = (True, None)) \<and>
   (fst (next_it (Iterate c k)) = Some EOF \<longrightarrow> Exists c k = (False, None)) \<and>
   (fst (next_it (Iterate c k)) = Some err \<and> err \<noteq> EOF \<longrightarrow> Exists c k = (False, Some err)) \<and>
   (Exists c k = (b, Some err) \<longrightarrow> \<not> b \<and> err \<noteq> EOF \<and> read_failed c err) \<and>
   (length (Make_records recs) < 2 ^ 32 \<and> length k < 2 ^ 32 \<longrightarrow>
      Exists (bytesReader eager (Make_records recs)) k = (k \<in> fst ` set recs, None))"
proof -
  have a1: "fst (next_it (Iterate c k)) = None \<longrightarrow> Exists c k = (True, None)"
    by (simp add: Exists_def)
  have a2: "fst (next_it (Iterate c k)) = Some EOF \<longrightarrow> Exists c k = (False, None)"
    by (simp add: Exists_def)
  have a3: "fst (next_it (Iterate c k)) = Some err \<and> err \<noteq> EOF \<longrightarrow> Exists c k = (False, Some err)"
    by (simp add: Exists_def)
  have a4: "Exists c k = (b, Some err) \<longrightarrow> \<not> b \<and> err \<noteq> EOF \<and> read_failed c err"
    using Exists_error [of c k b err] by (rule impI)
  have a5: "length (Make_records recs) < 2 ^ 32 \<and> length k < 2 ^ 32 \<longrightarrow>
      Exists (bytesReader eager (Make_records recs)) k = (k \<in> fst ` set recs, None)"
    using Exists_built [of recs k eager] by blast
  show ?thesis by (intro conjI a1 a2 a3 a4 a5)
qed

theorem Exists_absorbs_exhaustion_witness:
  "length (Make_records test_recs) < 2 ^ 32 \<and>
   Exists (bytesReader False (Make_records test_recs)) [116,104,114,101,101] = (True, None) \<and>
   Exists (bytesReader False (Make_records test_recs)) [102,111,117,114] = (False, None) \<and>
   Exists (bytesReader False []) [] = (False, Some ErrUnexpectedEOF) \<and>
   read_failed (bytesReader False []) ErrUnexpectedEOF"
proof -
  have small: "length (Make_records test_recs) < 2 ^ 32" by (simp add: length_Make_test_recs)
  have m: "[116,104,114,101,101] \<in> fst ` set test_recs" "[102,111,117,114] \<notin> fst ` set test_recs"
    by (simp_all add: test_recs_def)
  have t: "Exists (bytesReader False []) [] = (False, Some ErrUnexpectedEOF)"
    by (simp add: Exists_def Iterate_def readNums_def bytesReader_def next_it_def Let_def)
  note built = Exists_absorbs_exhaustion
    [THEN conjunct2, THEN conjunct2, THEN conjunct2, THEN conjunct2, rule_format]
  note failed = Exists_absorbs_exhaustion
    [THEN conjunct2, THEN conjunct2, THEN conjunct2, THEN conjunct1, rule_format]
  have a: "Exists (bytesReader False (Make_records test_recs)) [116,104,114,101,101] =
      ([116,104,114,101,101] \<in> fst ` set test_recs, None)"
    by (rule built) (simp add: length_Make_test_recs)
  have b: "Exists (bytesReader False (Make_records test_recs)) [102,111,117,114] =
      ([102,111,117,114] \<in> fst ` set test_recs, None)"
    by (rule built) (simp add: length_Make_test_recs)
  have c: "read_failed (bytesReader False []) ErrUnexpectedEOF"
    using failed [OF t] by simp
  show ?thesis using small a b c t m by simp
qed

section \<open>Whole-file iteration over a built database\<close>

text \<open>
  What whole-file iteration is expected to do, written over the records themselves:
  \<open>each_section\<close> calls a callback on the key and value sections of each record, in order,
  until the callback fails or does not return; \<open>each_record\<close> does the same with the
  key and value bytes; \<open>sections_of\<close> are the sections of records laid out from a position.
\<close>

fun each_section ::
  "(SectionReader \<Rightarrow> SectionReader \<Rightarrow> 's \<Rightarrow> (error option \<times> 's) option) \<Rightarrow> 's
     \<Rightarrow> (SectionReader \<times> SectionReader) list \<Rightarrow> (error option \<times> 's) option" where
  "each_section g st [] = Some (None, st)"
| "each_section g st (ab # xs) =
     (case g (fst ab) (snd ab) st of
        None \<Rightarrow> None
      | Some (Some err, st') \<Rightarrow> Some (Some err, st')
      | Some (None, st') \<Rightarrow> each_section g st' xs)"

fun each_record ::
  "(byte list \<Rightarrow> byte list \<Rightarrow> 's \<Rightarrow> error option \<times> 's) \<Rightarrow> 's
     \<Rightarrow> (byte list \<times> byte list) list \<Rightarrow> error option \<times> 's" where
  "each_record f st [] = (None, st)"
| "each_record f st (kv # rs) =
     (case f (fst kv) (snd kv) st of
        (Some err, st') \<Rightarrow> (Some err, st')
      | (None, st') \<Rightarrow> each_record f st' rs)"

fun sections_of :: "(byte list \<times> byte list) list \<Rightarrow> nat \<Rightarrow> (SectionReader \<times> SectionReader) list" where
  "sections_of [] p = []"
| "sections_of (kv # rs) p =
     ((p + 8, length (fst kv)), (p + 8 + length (fst kv), length (snd kv)))
       # sections_of rs (p + 8 + length (fst kv) + length (snd kv))"

lemma record_region_append [simp]:
  "record_region (xs @ ys) = record_region xs @ record_region ys"
  by (simp add: record_region_def)

lemma record_region_Cons [simp]:
  "record_region (kv # rs) = record_bytes kv @ record_region rs"
  by (simp add: record_region_def)

lemma record_region_Nil [simp]: "record_region [] = []"
  by (simp add: record_region_def)

lemma rec_at_append:
  "rec_at (done @ kv # rest) c (c + length (record_region done)) = Some kv"
proof (induction "done" arbitrary: c)
  case Nil
  then show ?case by simp
next
  case (Cons x xs)
  have "rec_at (xs @ kv # rest) (c + 8 + length (fst x) + length (snd x))
      (c + 8 + length (fst x) + length (snd x) + length (record_region xs)) = Some kv"
    by (rule Cons.IH)
  then show ?case by (simp add: add.assoc)
qed

lemma ReadFull_inside:
  assumes "rd m base = (x, None)" "length x = m"
  shows "ReadFull rd (base, m) = Some (Inr x)"
proof (cases "m = 0")
  case True
  then show ?thesis using assms by (simp add: ReadFull_def ReadAtLeast.simps)
next
  case False
  then have "ReadAtLeast rd base m [] = ReadAtLeast rd base m x"
    using assms by (subst ReadAtLeast.simps) simp
  also have "\<dots> = Some (Inr x)"
    using assms by (subst ReadAtLeast.simps) simp
  finally show ?thesis by (simp add: ReadFull_def)
qed

lemma record_key_read:
  assumes small: "length (Make_records recs) < 2 ^ 32"
    and at: "rec_at recs 2048 p = Some kv"
  shows "bytesReader eager (Make_records recs) (length (fst kv)) (p + 8) = (fst kv, None)"
proof -
  let ?F = "Make_records recs"
  have h: "holds_at ?F p (record_bytes kv)"
    and hi: "p + length (record_bytes kv) \<le> 2048 + length (record_region recs)"
    using record_holds [OF at] by simp_all
  have "0 < length recs" using rec_at_nonempty [OF at] by simp
  then have end_lt: "2048 + length (record_region recs) < length ?F"
    by (simp add: length_Make_records)
  have in_file: "p + 8 + length (fst kv) + length (snd kv) < length ?F"
    using hi end_lt by simp
  have rb: "record_bytes kv =
      putNums (of_nat (length (fst kv))) (of_nat (length (snd kv))) @ fst kv @ snd kv"
    by (simp add: record_bytes_def)
  have hk: "holds_at ?F (p + 8) (fst kv)"
    using holds_at_sub [of ?F p "putNums (of_nat (length (fst kv))) (of_nat (length (snd kv)))" "fst kv" "snd kv"] h
    unfolding rb by simp
  have "bytesReader eager ?F (length (fst kv)) (p + 8) =
      (fst kv, if eager \<and> p + 8 + length (fst kv) = length ?F then Some EOF else None)"
    using hk in_file by (intro bytesReader_holds) simp_all
  then show ?thesis using in_file by simp
qed

lemma record_fields:
  assumes small: "length (Make_records (done @ kv # rest)) < 2 ^ 32"
  defines "p \<equiv> 2048 + length (record_region done)"
  shows "readNums (bytesReader eager (Make_records (done @ kv # rest))) (of_nat p) =
           Inr (of_nat (length (fst kv)), of_nat (length (snd kv)))"
    and "unat (of_nat p + 8 :: u32) = p + 8"
    and "unat (of_nat (length (fst kv)) :: u32) = length (fst kv)"
    and "unat (of_nat p + 8 + of_nat (length (fst kv)) :: u32) = p + 8 + length (fst kv)"
    and "unat (of_nat (length (snd kv)) :: u32) = length (snd kv)"
    and "(of_nat p :: u32) + (8 + of_nat (length (fst kv)) + of_nat (length (snd kv))) =
           of_nat (2048 + length (record_region (done @ [kv])))"
    and "(of_nat p :: u32) < of_nat (2048 + length (record_region (done @ kv # rest)))"
    and "bytesReader eager (Make_records (done @ kv # rest)) (length (fst kv)) (p + 8) = (fst kv, None)"
    and "bytesReader eager (Make_records (done @ kv # rest)) (length (snd kv)) (p + 8 + length (fst kv))
           = (snd kv, None)"
proof -
  let ?recs = "done @ kv # rest"
  have at: "rec_at ?recs 2048 p = Some kv" unfolding p_def by (rule rec_at_append)
  note rr = record_reads [OF small at]
  show "readNums (bytesReader eager (Make_records ?recs)) (of_nat p) =
           Inr (of_nat (length (fst kv)), of_nat (length (snd kv)))" by (rule rr(1))
  have b: "p + 8 + length (fst kv) + length (snd kv) < 2 ^ 32" by (rule rr(5))
  then have p: "p < 2 ^ 32" by simp
  have up: "unat (of_nat p :: u32) = p" using p by (rule unat_of_nat_u32)
  show "unat (of_nat p + 8 :: u32) = p + 8" using b up by (simp add: unat_word_ariths)
  show "unat (of_nat (length (fst kv)) :: u32) = length (fst kv)"
    using b by (intro unat_of_nat_u32) simp
  show "unat (of_nat (length (snd kv)) :: u32) = length (snd kv)"
    using b by (intro unat_of_nat_u32) simp
  have "(of_nat p + 8 + of_nat (length (fst kv)) :: u32) = of_nat (p + 8 + length (fst kv))" by simp
  then show "unat (of_nat p + 8 + of_nat (length (fst kv)) :: u32) = p + 8 + length (fst kv)"
    using b by (simp only: unat_of_nat_u32)
  show "(of_nat p :: u32) + (8 + of_nat (length (fst kv)) + of_nat (length (snd kv))) =
           of_nat (2048 + length (record_region (done @ [kv])))"
    by (simp add: p_def)
  have e: "2048 + length (record_region ?recs) < 2 ^ 32"
    using small by (simp add: length_Make_records)
  have "p < 2048 + length (record_region ?recs)" by (simp add: p_def)
  then show "(of_nat p :: u32) < of_nat (2048 + length (record_region ?recs))"
    using p e by (simp add: word_less_nat_alt unat_of_nat_u32 del: of_nat_add)
  show "bytesReader eager (Make_records ?recs) (length (fst kv)) (p + 8) = (fst kv, None)"
    using record_key_read [OF small at] .
  show "bytesReader eager (Make_records ?recs) (length (snd kv)) (p + 8 + length (fst kv)) = (snd kv, None)"
    by (rule rr(4))
qed

lemma ForEachReader_loop_built:
  "length (Make_records (done @ rest)) < 2 ^ 32 \<Longrightarrow>
   ForEachReader_loop (bytesReader eager (Make_records (done @ rest))) g
     (of_nat (2048 + length (record_region (done @ rest))))
     (of_nat (2048 + length (record_region done))) st =
   each_section g st (sections_of rest (2048 + length (record_region done)))"
proof (induction rest arbitrary: "done" st)
  case Nil
  show ?case by (subst ForEachReader_loop.simps) simp
next
  case (Cons kv rest)
  note f = record_fields [OF Cons.prems]
  have IH: "ForEachReader_loop (bytesReader eager (Make_records (done @ kv # rest))) g
     (of_nat (2048 + length (record_region (done @ kv # rest))))
     (of_nat (2048 + length (record_region (done @ [kv])))) st' =
   each_section g st' (sections_of rest (2048 + length (record_region (done @ [kv]))))" for st'
    using Cons.IH [of "done @ [kv]" st'] Cons.prems by simp
  have sec: "sections_of rest (2048 + length (record_region (done @ [kv]))) =
      sections_of rest (2048 + length (record_region done) + 8 + length (fst kv) + length (snd kv))"
    by (simp add: add.assoc)
  show ?case
    by (subst ForEachReader_loop.simps)
       (simp only: f IH sec sections_of.simps each_section.simps fst_conv snd_conv
          if_True sum.case prod.case)
qed

lemma each_section_ReadFull:
  "length (Make_records (done @ rest)) < 2 ^ 32 \<Longrightarrow>
   each_section (ForEachBytes_callback (bytesReader eager (Make_records (done @ rest))) f)
     st (sections_of rest (2048 + length (record_region done))) =
   Some (each_record f st rest)"
proof (induction rest arbitrary: "done" st)
  case Nil
  show ?case by simp
next
  case (Cons kv rest)
  let ?c = "bytesReader eager (Make_records (done @ kv # rest))"
  let ?p = "2048 + length (record_region done)"
  note fl = record_fields [OF Cons.prems]
  have k: "ReadFull ?c (?p + 8, length (fst kv)) = Some (Inr (fst kv))"
    using fl(8) by (intro ReadFull_inside) simp_all
  have v: "ReadFull ?c (?p + 8 + length (fst kv), length (snd kv)) = Some (Inr (snd kv))"
    using fl(9) by (intro ReadFull_inside) simp_all
  have cb: "ForEachBytes_callback ?c f (?p + 8, length (fst kv))
      (?p + 8 + length (fst kv), length (snd kv)) st = Some (f (fst kv) (snd kv) st)"
    by (simp only: ForEachBytes_callback_def k v option.case sum.case)
  have sec: "sections_of rest (?p + 8 + length (fst kv) + length (snd kv)) =
      sections_of rest (2048 + length (record_region (done @ [kv])))"
    by (simp add: add.assoc)
  have IH: "each_section (ForEachBytes_callback ?c f)
     st' (sections_of rest (2048 + length (record_region (done @ [kv])))) =
   Some (each_record f st' rest)" for st'
    using Cons.IH [of "done @ [kv]" st'] Cons.prems by simp
  show ?case
  proof (cases "f (fst kv) (snd kv) st")
    case (Pair e st')
    show ?thesis
    proof (cases e)
      case None
      then show ?thesis using Pair IH [of st']
        by (simp only: sections_of.simps each_section.simps each_record.simps fst_conv snd_conv
            cb sec option.case prod.case)
    next
      case (Some err)
      then show ?thesis using Pair
        by (simp only: sections_of.simps each_section.simps each_record.simps fst_conv snd_conv
            cb option.case prod.case)
    qed
  qed
qed

lemma each_record_collect:
  "each_record (\<lambda>k v acc. (None, acc @ [(k, v)])) acc recs = (None, acc @ recs)"
  by (induction recs arbitrary: acc) simp_all

lemma header_entry_0:
  "readNums (bytesReader eager (Make_records recs)) 0 =
     Inr (of_nat (2048 + length (record_region recs)),
          of_nat (2 * length (bucket 0 (entries recs 2048))))"
proof -
  have "holds_at (Make_records recs) (unat (0::u32))
      (putNums (of_nat (table_pos recs 0)) (of_nat (2 * length (bucket 0 (entries recs 2048)))))"
    using header_entry_holds [of 0 recs] by simp
  then show ?thesis
    using readNums_holds [of "Make_records recs" 0] by (simp add: table_pos_def)
qed

text \<open>
  C6. \<open>ForEachReader\<close> reads its end position from header entry 0 and starts at offset
  2048. In a built database (below 4 GB) header entry 0 holds the end of the record
  region, \<open>ForEachReader\<close> calls its callback on the key and value sections of the
  records, one call per record in write order (up to the first call that fails), and
  \<open>ForEachBytes\<close> does so with the key and value bytes: a callback that collects what it
  is given ends up with exactly the records written.
\<close>

theorem ForEach_visits_records_in_write_order:
  "ForEachReader c g st =
     (case readNums c 0 of
        Inl err \<Rightarrow> Some (Some err, st)
      | Inr (end, n) \<Rightarrow> ForEachReader_loop c g end 2048 st) \<and>
   (length (Make_records recs) < 2 ^ 32 \<longrightarrow>
      (\<exists>n. readNums (bytesReader eager (Make_records recs)) 0 =
             Inr (of_nat (2048 + length (concat (map record_bytes recs))), n)) \<and>
      ForEachReader (bytesReader eager (Make_records recs)) g st =
        each_section g st (sections_of recs 2048) \<and>
      ForEachBytes (bytesReader eager (Make_records recs)) f st' = Some (each_record f st' recs) \<and>
      ForEachBytes (bytesReader eager (Make_records recs)) (\<lambda>k v acc. (None, acc @ [(k, v)])) [] =
        Some (None, recs))"
proof -
  have a: "ForEachReader c g st =
     (case readNums c 0 of
        Inl err \<Rightarrow> Some (Some err, st)
      | Inr (end, n) \<Rightarrow> ForEachReader_loop c g end 2048 st)"
    by (simp add: ForEachReader_def headerSize_def split: sum.splits prod.splits)
  have b: "ForEachReader (bytesReader eager (Make_records recs)) g st =
        each_section g st (sections_of recs 2048)"
    if "length (Make_records recs) < 2 ^ 32" for g :: "SectionReader \<Rightarrow> SectionReader \<Rightarrow> 'x \<Rightarrow> (error option \<times> 'x) option" and st
    using ForEachReader_loop_built [of "[]" recs eager g st] that
    by (simp add: ForEachReader_def headerSize_def header_entry_0)
  have c: "ForEachBytes (bytesReader eager (Make_records recs)) f st = Some (each_record f st recs)"
    if "length (Make_records recs) < 2 ^ 32" for f :: "byte list \<Rightarrow> byte list \<Rightarrow> 'y \<Rightarrow> error option \<times> 'y" and st
    unfolding ForEachBytes_def b [OF that]
    using each_section_ReadFull [where ?done = "[]" and rest = recs and eager = eager and f = f and st = st] that
    by simp
  have d: "\<exists>n. readNums (bytesReader eager (Make_records recs)) 0 =
             Inr (of_nat (2048 + length (concat (map record_bytes recs))), n)"
    using header_entry_0 [of eager recs] by (simp add: record_region_def)
  show ?thesis
    using a b [of g st] c [of f st'] c [of "\<lambda>k v acc. (None, acc @ [(k, v)])" "[]"] d
    by (simp add: each_record_collect)
qed

theorem ForEach_visits_records_in_write_order_witness:
  "length (Make_records test_recs) < 2 ^ 32 \<and>
   ForEachBytes (bytesReader False (Make_records test_recs)) (\<lambda>k v acc. (None, acc @ [(k, v)])) [] =
     Some (None, test_recs) \<and>
   ForEachBytes (bytesReader False (Make_records test_recs)) (\<lambda>k v n. (None, Suc n)) 0 =
     Some (None, 6)"
proof -
  have small: "length (Make_records test_recs) < 2 ^ 32" by (simp add: length_Make_test_recs)
  have n: "each_record (\<lambda>k v n. (None, Suc n)) 0 test_recs = (None, 6)"
    by (simp add: test_recs_def)
  note t = ForEach_visits_records_in_write_order
      [where recs = test_recs and eager = False and f = "\<lambda>k v n. (None, Suc n)" and st' = 0
        and c = "bytesReader False (Make_records test_recs)"
        and g = "\<lambda>a b (s::unit). Some (None, s)" and st = "()",
       THEN conjunct2, rule_format, OF small]
  show ?thesis using t small n by simp
qed

section \<open>Failure of the builder task\<close>

lemma failed_inv_step:
  "makeErr w \<noteq> None \<longrightarrow> doneCh w = Received \<Longrightarrow>
   makeErr (step w ev) \<noteq> None \<longrightarrow> doneCh (step w ev) = Received"
  by (cases ev)
     (auto simp add: Write_def Close_def Make_returns_def receive_done_def Let_def
       split: chan.splits option.splits)

lemma failed_inv:
  "makeErr (foldl step NewWriter evs) \<noteq> None \<longrightarrow> doneCh (foldl step NewWriter evs) = Received"
proof (induction evs rule: rev_induct)
  case Nil
  show ?case by (simp add: NewWriter_def)
next
  case (snoc ev evs)
  from failed_inv_step [OF snoc.IH] show ?case by simp
qed

lemma Write_failed:
  "makeErr w = Some err \<Longrightarrow> doneCh w = Received \<Longrightarrow> Write perr k v w = (Some err, w)"
  by (simp add: Write_def receive_done_def)

lemma Writes_failed:
  "makeErr w = Some err \<Longrightarrow> doneCh w = Received \<Longrightarrow>
   Writes w cs = (replicate (length cs) (Some err), w)"
  by (induction cs) (auto simp add: Write_failed)

lemma step_failed:
  "makeErr w = Some err \<Longrightarrow> doneCh w = Received \<Longrightarrow> step w ev = w"
  by (cases ev) (simp_all add: Write_failed Close_def Make_returns_def)

lemma steps_failed:
  "makeErr w = Some err \<Longrightarrow> doneCh w = Received \<Longrightarrow> foldl step w evs = w"
  by (induction evs) (simp_all add: step_failed)

lemma Close_receives:
  "makeErr w = None \<Longrightarrow> doneCh w = Ready r \<or> (doneCh w = Pending \<and> fin = Some r) \<Longrightarrow>
   Close fin w =
     (Some r, w\<lparr>pipeWriter := pipeWriter w @ [[10]], pipeClosed := True, doneCh := Received\<rparr>)"
  by (auto simp add: Close_def)

lemma Write_to_pipe:
  "makeErr w = None \<Longrightarrow> doneCh w = Pending \<or> doneCh w = Received \<Longrightarrow>
   Write perr k v w = (perr, w\<lparr>pipeWriter := pipeWriter w @ [record_line k v]\<rparr>)"
  by (auto simp add: Write_def receive_done_def)

text \<open>
  A failure that \<open>Close\<close> returns is not kept. The builder task has sent
  \<open>BadFormatError\<close> and \<open>Close\<close> receives and returns it; \<open>makeErr\<close> is still \<open>nil\<close> and
  \<open>doneCh\<close> is empty, so a \<open>Write\<close> that follows formats its record and writes it to the
  pipe, and returns what the pipe returns, which for a closed pipe is \<open>io.ErrClosedPipe\<close>:
  not the failure that was observed, and not without I/O.
\<close>

theorem Write_after_Close_returned_failure:
  "Close None (Make_returns (Some BadFormatError) NewWriter) =
     (Some (Some BadFormatError),
      \<lparr>pipeWriter = [[10]], pipeClosed = True, doneCh = Received, makeErr = None\<rparr>) \<and>
   Write (Some ErrClosedPipe) [1] [2]
       \<lparr>pipeWriter = [[10]], pipeClosed = True, doneCh = Received, makeErr = None\<rparr> =
     (Some ErrClosedPipe,
      \<lparr>pipeWriter = [[10], [43,49,44,49,58,1,45,62,2,10]], pipeClosed = True, doneCh = Received,
         makeErr = None\<rparr>) \<and>
   fst (Write (Some ErrClosedPipe) [1] [2]
         (snd (Close None (Make_returns (Some BadFormatError) NewWriter)))) \<noteq> Some BadFormatError \<and>
   pipeWriter (snd (Write (Some ErrClosedPipe) [1] [2]
         (snd (Close None (Make_returns (Some BadFormatError) NewWriter))))) \<noteq>
     pipeWriter (snd (Close None (Make_returns (Some BadFormatError) NewWriter)))"
  by (simp add: Close_def Write_def receive_done_def Make_returns_def NewWriter_def
      record_line_def decimal.simps)

text \<open>
  C8. When the result waiting in \<open>doneCh\<close> is a failure of the builder task, the next
  \<open>Write\<close> returns that failure, writes nothing to the pipe and stores the failure in
  \<open>makeErr\<close>. A \<open>Close\<close> that comes first writes the final newline, closes the pipe and
  returns the failure, whether it is already waiting or arrives while \<open>Close\<close> waits,
  but stores nothing: a \<open>Write\<close> after it goes to the pipe and returns the pipe's
  error. So does every \<open>Write\<close> that finds \<open>doneCh\<close> empty and no failure stored. In
  every state that a \<open>Writer\<close> can get into, once a \<open>Write\<close> has stored a failure in
  \<open>makeErr\<close>, every \<open>Write\<close>, and any number of them in succession, returns that
  failure and leaves the \<open>Writer\<close> as it is, the pipe included, and so do \<open>Close\<close> and
  whatever else happens to it.
\<close>

theorem Writer_failure_seen_by_Write_is_permanent:
  "(doneCh w = Ready (Some err) \<longrightarrow>
      Write perr k v w = (Some err, w\<lparr>makeErr := Some err, doneCh := Received\<rparr>)) \<and>
   (makeErr w = None \<and> (doneCh w = Ready (Some err) \<or> doneCh w = Pending \<and> fin = Some (Some err)) \<longrightarrow>
      Close fin w =
        (Some (Some err),
         w\<lparr>pipeWriter := pipeWriter w @ [[10]], pipeClosed := True, doneCh := Received\<rparr>) \<and>
      Write perr k v (snd (Close fin w)) =
        (perr, w\<lparr>pipeWriter := pipeWriter w @ [[10], record_line k v], pipeClosed := True,
                  doneCh := Received\<rparr>)) \<and>
   (makeErr w = None \<and> (doneCh w = Pending \<or> doneCh w = Received) \<longrightarrow>
      Write perr k v w = (perr, w\<lparr>pipeWriter := pipeWriter w @ [record_line k v]\<rparr>)) \<and>
   (makeErr (foldl step NewWriter evs) = Some err \<longrightarrow>
      Write perr k v (foldl step NewWriter evs) = (Some err, foldl step NewWriter evs) \<and>
      Writes (foldl step NewWriter evs) cs =
        (replicate (length cs) (Some err), foldl step NewWriter evs) \<and>
      Close fin (foldl step NewWriter evs) = (Some (Some err), foldl step NewWriter evs) \<and>
      foldl step (foldl step NewWriter evs) evs' = foldl step NewWriter evs)"
proof -
  have a: "doneCh w = Ready (Some err) \<Longrightarrow>
      Write perr k v w = (Some err, w\<lparr>makeErr := Some err, doneCh := Received\<rparr>)"
    by (simp add: Write_def receive_done_def)
  have b: "Close fin w =
        (Some (Some err),
         w\<lparr>pipeWriter := pipeWriter w @ [[10]], pipeClosed := True, doneCh := Received\<rparr>) \<and>
      Write perr k v (snd (Close fin w)) =
        (perr, w\<lparr>pipeWriter := pipeWriter w @ [[10], record_line k v], pipeClosed := True,
                  doneCh := Received\<rparr>)"
    if m: "makeErr w = None"
      and d: "doneCh w = Ready (Some err) \<or> doneCh w = Pending \<and> fin = Some (Some err)"
  proof -
    note c = Close_receives [OF m d]
    have "Write perr k v
        (w\<lparr>pipeWriter := pipeWriter w @ [[10]], pipeClosed := True, doneCh := Received\<rparr>) =
      (perr, w\<lparr>pipeWriter := pipeWriter w @ [[10], record_line k v], pipeClosed := True,
                  doneCh := Received\<rparr>)"
      using m by (simp add: Write_def receive_done_def)
    then show ?thesis using c by simp
  qed
  have c: "makeErr w = None \<Longrightarrow> doneCh w = Pending \<or> doneCh w = Received \<Longrightarrow>
      Write perr k v w = (perr, w\<lparr>pipeWriter := pipeWriter w @ [record_line k v]\<rparr>)"
    by (rule Write_to_pipe)
  have d: "Write perr k v (foldl step NewWriter evs) = (Some err, foldl step NewWriter evs) \<and>
      Writes (foldl step NewWriter evs) cs =
        (replicate (length cs) (Some err), foldl step NewWriter evs) \<and>
      Close fin (foldl step NewWriter evs) = (Some (Some err), foldl step NewWriter evs) \<and>
      foldl step (foldl step NewWriter evs) evs' = foldl step NewWriter evs"
    if m: "makeErr (foldl step NewWriter evs) = Some err"
  proof -
    from failed_inv [of evs] m have r: "doneCh (foldl step NewWriter evs) = Received" by simp
    show ?thesis
      using Write_failed [OF m r] Writes_failed [OF m r] steps_failed [OF m r] m
      by (simp add: Close_def)
  qed
  show ?thesis using a b c d by blast
qed

theorem Writer_failure_seen_by_Write_is_permanent_witness:
  "doneCh (Make_returns (Some BadFormatError) NewWriter) = Ready (Some BadFormatError) \<and>
   makeErr (Make_returns (Some BadFormatError) NewWriter) = None \<and>
   Write None [1] [2] (Make_returns (Some BadFormatError) NewWriter) =
     (Some BadFormatError, \<lparr>pipeWriter = [], pipeClosed = False, doneCh = Received,
        makeErr = Some BadFormatError\<rparr>) \<and>
   Close None (Make_returns (Some BadFormatError) NewWriter) =
     (Some (Some BadFormatError), \<lparr>pipeWriter = [[10]], pipeClosed = True, doneCh = Received,
        makeErr = None\<rparr>) \<and>
   Write (Some ErrClosedPipe) [1] [2] (snd (Close None (Make_returns (Some BadFormatError) NewWriter))) =
     (Some ErrClosedPipe, \<lparr>pipeWriter = [[10], record_line [1] [2]], pipeClosed = True,
        doneCh = Received, makeErr = None\<rparr>) \<and>
   makeErr NewWriter = None \<and> doneCh NewWriter = Pending \<and>
   Write None [1] [2] NewWriter =
     (None, \<lparr>pipeWriter = [record_line [1] [2]], pipeClosed = False, doneCh = Pending,
        makeErr = None\<rparr>) \<and>
   makeErr (foldl step NewWriter
       [CallWrite None [1] [2], MakeReturns (Some BadFormatError), CallWrite None [3] [4]])
     = Some BadFormatError \<and>
   Writes (foldl step NewWriter
       [CallWrite None [1] [2], MakeReturns (Some BadFormatError), CallWrite None [3] [4]])
     [(None, [5], [6]), (None, [7], [8])]
     = ([Some BadFormatError, Some BadFormatError],
        \<lparr>pipeWriter = [record_line [1] [2]], pipeClosed = False, doneCh = Received,
          makeErr = Some BadFormatError\<rparr>) \<and>
   Close None (foldl step NewWriter
       [CallWrite None [1] [2], MakeReturns (Some BadFormatError), CallWrite None [3] [4]])
     = (Some (Some BadFormatError),
        \<lparr>pipeWriter = [record_line [1] [2]], pipeClosed = False, doneCh = Received,
          makeErr = Some BadFormatError\<rparr>)"
proof -
  let ?evs = "[CallWrite None [1] [2], MakeReturns (Some BadFormatError), CallWrite None [3] [4]]"
  let ?w = "Make_returns (Some BadFormatError) NewWriter"
  have s: "foldl step NewWriter ?evs =
      \<lparr>pipeWriter = [record_line [1] [2]], pipeClosed = False, doneCh = Received,
          makeErr = Some BadFormatError\<rparr>"
    by (simp add: NewWriter_def Write_def receive_done_def Make_returns_def)
  have r: "?w = \<lparr>pipeWriter = [], pipeClosed = False, doneCh = Ready (Some BadFormatError),
      makeErr = None\<rparr>"
    by (simp add: NewWriter_def Make_returns_def)
  have r1: "doneCh ?w = Ready (Some BadFormatError)" and r2: "makeErr ?w = None"
    by (simp_all add: r)
  have n1: "makeErr NewWriter = None" and n2: "doneCh NewWriter = Pending"
    by (simp_all add: NewWriter_def)
  have m: "makeErr (foldl step NewWriter ?evs) = Some BadFormatError"
    by (simp only: s) simp
  note t1 = Writer_failure_seen_by_Write_is_permanent
    [of ?w BadFormatError None "[1]" "[2]" None ?evs "[(None, [5], [6]), (None, [7], [8])]" "[]"]
  note t2 = Writer_failure_seen_by_Write_is_permanent
    [of ?w BadFormatError "Some ErrClosedPipe" "[1]" "[2]" None "[]" "[]" "[]"]
  note t3 = Writer_failure_seen_by_Write_is_permanent
    [of NewWriter BadFormatError None "[1]" "[2]" None "[]" "[]" "[]"]
  have a: "Write None [1] [2] ?w =
      (Some BadFormatError, ?w\<lparr>makeErr := Some BadFormatError, doneCh := Received\<rparr>)"
    using t1 [THEN conjunct1] r1 by (rule mp)
  have b: "Close None ?w =
        (Some (Some BadFormatError),
         ?w\<lparr>pipeWriter := pipeWriter ?w @ [[10]], pipeClosed := True, doneCh := Received\<rparr>) \<and>
      Write (Some ErrClosedPipe) [1] [2] (snd (Close None ?w)) =
        (Some ErrClosedPipe,
         ?w\<lparr>pipeWriter := pipeWriter ?w @ [[10], record_line [1] [2]], pipeClosed := True,
                  doneCh := Received\<rparr>)"
    using t2 [THEN conjunct2, THEN conjunct1] r1 r2 by blast
  have c: "Write None [1] [2] NewWriter =
      (None, NewWriter\<lparr>pipeWriter := pipeWriter NewWriter @ [record_line [1] [2]]\<rparr>)"
    using t3 [THEN conjunct2, THEN conjunct2, THEN conjunct1] n1 n2 by blast
  have d: "Writes (foldl step NewWriter ?evs) [(None, [5], [6]), (None, [7], [8])] =
        (replicate (length [(None :: error option, [5::byte], [6::byte]), (None, [7], [8])])
           (Some BadFormatError), foldl step NewWriter ?evs) \<and>
      Close None (foldl step NewWriter ?evs) = (Some (Some BadFormatError), foldl step NewWriter ?evs)"
    using t1 [THEN conjunct2, THEN conjunct2, THEN conjunct2] m by blast
  have a': "Write None [1] [2] ?w =
     (Some BadFormatError, \<lparr>pipeWriter = [], pipeClosed = False, doneCh = Received,
        makeErr = Some BadFormatError\<rparr>)"
    using a by (simp add: r)
  have b1: "Close None ?w =
     (Some (Some BadFormatError), \<lparr>pipeWriter = [[10]], pipeClosed = True, doneCh = Received,
        makeErr = None\<rparr>)"
    using b [THEN conjunct1] by (simp add: r)
  have b2: "Write (Some ErrClosedPipe) [1] [2] (snd (Close None ?w)) =
     (Some ErrClosedPipe, \<lparr>pipeWriter = [[10], record_line [1] [2]], pipeClosed = True,
        doneCh = Received, makeErr = None\<rparr>)"
    using b [THEN conjunct2] by (simp add: r)
  have c': "Write None [1] [2] NewWriter =
     (None, \<lparr>pipeWriter = [record_line [1] [2]], pipeClosed = False, doneCh = Pending,
        makeErr = None\<rparr>)"
    using c by (simp add: NewWriter_def)
  have d1: "Writes (foldl step NewWriter ?evs) [(None, [5], [6]), (None, [7], [8])] =
     ([Some BadFormatError, Some BadFormatError],
        \<lparr>pipeWriter = [record_line [1] [2]], pipeClosed = False, doneCh = Received,
          makeErr = Some BadFormatError\<rparr>)"
    unfolding s using d [THEN conjunct1, unfolded s] by (simp del: Writes.simps)
  have d2: "Close None (foldl step NewWriter ?evs) =
     (Some (Some BadFormatError),
        \<lparr>pipeWriter = [record_line [1] [2]], pipeClosed = False, doneCh = Received,
          makeErr = Some BadFormatError\<rparr>)"
    unfolding s using d [THEN conjunct2, unfolded s] by simp
  show ?thesis
    by (intro conjI) (rule r1 r2 a' b1 b2 n1 n2 c' m d1 d2)+
qed

section \<open>Building, dumping and building again\<close>

lemma digit_byte:
  assumes "d < 10"
  shows "is_digit (48 + of_nat d)" and "unat ((48 + of_nat d :: byte) - 48) = d"
proof -
  have u: "unat (of_nat d :: byte) = d" using assms by (simp add: unat_of_nat)
  have s: "unat (48 + of_nat d :: byte) = 48 + d"
    using assms u by (simp add: unat_word_ariths)
  show "is_digit (48 + of_nat d)"
    using assms s by (simp add: is_digit_def word_le_nat_alt)
  show "unat ((48 + of_nat d :: byte) - 48) = d" using u by simp
qed

lemma decimal_digits: "c \<in> set (decimal n) \<Longrightarrow> is_digit c"
proof (induction n arbitrary: c rule: decimal.induct)
  case (1 n)
  show ?case
  proof (cases "n < 10")
    case True
    then show ?thesis using "1.prems" digit_byte(1) [of n]
      by (subst (asm) decimal.simps) simp
  next
    case False
    have "n mod 10 < 10" by simp
    from digit_byte(1) [OF this] False "1.IH" "1.prems" show ?thesis
      by (subst (asm) decimal.simps) auto
  qed
qed

lemma decimal_nonempty: "decimal n \<noteq> []"
  by (subst decimal.simps) simp

lemma digits_value_snoc: "digits_value (ds @ [d]) = 10 * digits_value ds + unat (d - 48)"
  by (simp add: digits_value_def)

lemma digits_value_decimal: "digits_value (decimal n) = n"
proof (induction n rule: decimal.induct)
  case (1 n)
  show ?case
  proof (cases "n < 10")
    case True
    then show ?thesis using digit_byte(2) [of n]
      by (subst decimal.simps) (simp add: digits_value_def)
  next
    case False
    have "n mod 10 < 10" by simp
    from digit_byte(2) [OF this] False "1.IH" show ?thesis
      by (subst decimal.simps) (simp add: digits_value_snoc)
  qed
qed

lemma readNum_decimal:
  assumes "\<not> is_digit delim"
  shows "readNum delim (decimal n @ delim # rest) = Some (n, rest)"
proof -
  have t: "takeWhile is_digit (decimal n @ delim # rest) = decimal n"
    using assms decimal_digits by (simp add: takeWhile_append2)
  have d: "dropWhile is_digit (decimal n @ delim # rest) = delim # rest"
    using assms decimal_digits by (simp add: dropWhile_append2)
  show ?thesis
    by (simp add: readNum_def t d decimal_nonempty digits_value_decimal)
qed

lemma parse_record_line:
  "parse_record (decimal (length k) @ 44 # decimal (length v) @ 58 # k @ 45 # 62 # v @ 10 # rest)
     = Inr ((k, v), rest)"
proof -
  have a: "\<not> is_digit 44" "\<not> is_digit 58" by (simp_all add: is_digit_def)
  show ?thesis
    by (simp add: parse_record_def Let_def readNum_decimal [OF a(1)] readNum_decimal [OF a(2)])
qed

lemma parse_records_line:
  "parse_records (record_line k v @ rest) =
     (case parse_records rest of Inl err \<Rightarrow> Inl err | Inr rs \<Rightarrow> Inr ((k, v) # rs))"
  by (subst parse_records.simps) (simp add: record_line_def parse_record_line)

lemma parse_records_text: "parse_records (text_of recs) = Inr recs"
proof (induction recs)
  case Nil
  show ?case by (subst parse_records.simps) (simp add: text_of_def)
next
  case (Cons kv recs)
  have "text_of (kv # recs) = record_line (fst kv) (snd kv) @ text_of recs"
    by (simp add: text_of_def)
  then show ?case using Cons.IH by (simp add: parse_records_line)
qed

lemma each_record_lines:
  "each_record (\<lambda>k v out. (None, out @ record_line k v)) out recs =
     (None, out @ concat (map (\<lambda>kv. record_line (fst kv) (snd kv)) recs))"
  by (induction recs arbitrary: out) simp_all

lemma ForEachBytes_built:
  assumes "length (Make_records recs) < 2 ^ 32"
  shows "ForEachBytes (bytesReader eager (Make_records recs)) f st = Some (each_record f st recs)"
proof -
  have "ForEachReader (bytesReader eager (Make_records recs)) g st =
        each_section g st (sections_of recs 2048)"
    for g :: "SectionReader \<Rightarrow> SectionReader \<Rightarrow> 'a \<Rightarrow> (error option \<times> 'a) option"
    using ForEachReader_loop_built [of "[]" recs eager g st] assms
    by (simp add: ForEachReader_def headerSize_def header_entry_0)
  then show ?thesis
    unfolding ForEachBytes_def
    using each_section_ReadFull [where ?done = "[]" and rest = recs and eager = eager and f = f and st = st] assms
    by simp
qed

lemma Dump_built:
  assumes "length (Make_records recs) < 2 ^ 32"
  shows "Dump (bytesReader eager (Make_records recs)) = Some (Inr (text_of recs))"
  by (simp add: Dump_def ForEachBytes_built [OF assms] each_record_lines text_of_def)

lemma Make_text: "Make (text_of recs) = Inr (Make_records recs)"
  by (simp add: Make_def parse_records_text)

lemma Make_Inr: "Make t = Inr f \<Longrightarrow> \<exists>recs. parse_records t = Inr recs \<and> f = Make_records recs"
  by (auto simp add: Make_def split: sum.splits)

lemma text_of_one:
  "text_of [([111,110,101], [49])] = [43,51,44,49,58,111,110,101,45,62,49,10, 10]"
  by (simp add: text_of_def record_line_def decimal.simps)

lemma Make_padded:
  "Make [43,48,51,44,49,58,111,110,101,45,62,49,10, 10] = Inr (Make_records [([111,110,101], [49])])"
  by (simp add: Make_def parse_records.simps parse_record_def readNum_def Let_def is_digit_def
      digits_value_def)

text \<open>
  C7. Whenever \<open>Make\<close> builds a file (below 4 GB) from a text, \<open>Dump\<close> of that file
  returns a text from which \<open>Make\<close> builds the same file again, byte for byte. For
  records written out as the \<open>Writer\<close> and the tests do, \<open>Make\<close> builds the file of
  exactly these records in this order, and \<open>Dump\<close> of that file gives back that very
  text.
\<close>

theorem build_dump_build:
  "(Make t = Inr f \<and> length f < 2 ^ 32 \<longrightarrow>
      (\<exists>t'. Dump (bytesReader eager f) = Some (Inr t') \<and> Make t' = Inr f)) \<and>
   (length (Make_records recs) < 2 ^ 32 \<longrightarrow>
      Make (text_of recs) = Inr (Make_records recs) \<and>
      Dump (bytesReader eager (Make_records recs)) = Some (Inr (text_of recs)))"
proof -
  have a: "\<exists>t'. Dump (bytesReader eager f) = Some (Inr t') \<and> Make t' = Inr f"
    if m: "Make t = Inr f" and s: "length f < 2 ^ 32"
  proof -
    from Make_Inr [OF m] obtain rs where f: "f = Make_records rs" by blast
    from s have "Dump (bytesReader eager f) = Some (Inr (text_of rs))"
      unfolding f by (rule Dump_built)
    moreover have "Make (text_of rs) = Inr f" unfolding f by (rule Make_text)
    ultimately show ?thesis by blast
  qed
  show ?thesis using a Dump_built [of recs eager] Make_text [of recs] by blast
qed

theorem build_dump_build_witness:
  "Make [43,48,51,44,49,58,111,110,101,45,62,49,10, 10] = Inr (Make_records [([111,110,101], [49])]) \<and>
   length (Make_records [([111,110,101], [49])]) < 2 ^ 32 \<and>
   Dump (bytesReader False (Make_records [([111,110,101], [49])])) =
     Some (Inr [43,51,44,49,58,111,110,101,45,62,49,10, 10]) \<and>
   Make [43,51,44,49,58,111,110,101,45,62,49,10, 10] = Inr (Make_records [([111,110,101], [49])]) \<and>
   length (Make_records test_recs) < 2 ^ 32 \<and>
   Make (text_of test_recs) = Inr (Make_records test_recs) \<and>
   Dump (bytesReader True (Make_records test_recs)) = Some (Inr (text_of test_recs))"
proof -
  have s: "length (Make_records [([111,110,101], [49])]) < 2 ^ 32"
    by (simp add: length_Make_records)
  have t: "length (Make_records test_recs) < 2 ^ 32" by (simp add: length_Make_test_recs)
  note a = build_dump_build
    [of "[43,48,51,44,49,58,111,110,101,45,62,49,10, 10]" "Make_records [([111,110,101], [49])]"
      False "[([111,110,101], [49])]"]
  note b = build_dump_build [where recs = test_recs and eager = True, THEN conjunct2, rule_format, OF t]
  show ?thesis using a b s t Make_padded by (simp add: text_of_one)
qed

end
